theory Spec2Isabelle
  imports Main "HOL-Library.List_Lexorder" "HOL-Library.Sublist"
begin

section \<open>JavaScript strings\<close>

text \<open>
  A JavaScript string is a sequence of UTF-16 code units.  A code unit is modelled as a
  natural number and a string as the list of its code units, so that the literals of the
  source that lie outside Latin-1 (the dash U+2014 of \<open>hasAllForms\<close>, the character
  U+CC44 in the tense labels of the parser) are single elements, as they are for
  \<open>String.prototype\<close> and for the regular expression engine.
\<close>

type_synonym jschar = nat
type_synonym jsstring = "jschar list"

definition js :: "string \<Rightarrow> jsstring" where
  "js cs = map of_char cs"

text \<open>The character classes of ECMAScript: \<open>\s\<close> (WhiteSpace and LineTerminator), the
  line terminators that \<open>.\<close> excludes, and the word characters of \<open>\b\<close>.\<close>

definition isSpace :: "jschar \<Rightarrow> bool" where
  "isSpace c \<longleftrightarrow>
     c = 9 \<or> c = 10 \<or> c = 11 \<or> c = 12 \<or> c = 13 \<or> c = 32 \<or> c = 160 \<or> c = 5760 \<or>
     (8192 \<le> c \<and> c \<le> 8202) \<or> c = 8232 \<or> c = 8233 \<or> c = 8239 \<or> c = 8287 \<or>
     c = 12288 \<or> c = 65279"

definition isLineTerminator :: "jschar \<Rightarrow> bool" where
  "isLineTerminator c \<longleftrightarrow> c = 10 \<or> c = 13 \<or> c = 8232 \<or> c = 8233"

definition isWordChar :: "jschar \<Rightarrow> bool" where
  "isWordChar c \<longleftrightarrow>
     (48 \<le> c \<and> c \<le> 57) \<or> (65 \<le> c \<and> c \<le> 90) \<or> c = 95 \<or> (97 \<le> c \<and> c \<le> 122)"

definition isDigit :: "jschar \<Rightarrow> bool" where
  "isDigit c \<longleftrightarrow> 48 \<le> c \<and> c \<le> 57"

text \<open>Case folding of the \<open>i\<close> flag without the \<open>u\<close> flag: a pattern character that is
  an ASCII letter matches exactly its two ASCII cases (a code unit above 127 is never
  canonicalised to an ASCII one), every other character of the patterns below matches
  itself only.\<close>

definition asciiLower :: "jschar \<Rightarrow> jschar" where
  "asciiLower c = (if 65 \<le> c \<and> c \<le> 90 then c + 32 else c)"

text \<open>\<open>s.slice(i, j)\<close> for \<open>0 \<le> i\<close>, \<open>0 \<le> j\<close>.\<close>

definition slice :: "jsstring \<Rightarrow> nat \<Rightarrow> nat \<Rightarrow> jsstring" where
  "slice s i j = take (j - i) (drop i s)"

text \<open>\<open>s.trim()\<close>.\<close>

definition trim :: "jsstring \<Rightarrow> jsstring" where
  "trim s = rev (dropWhile isSpace (rev (dropWhile isSpace s)))"

text \<open>\<open>s.split(c)\<close> for a separator of one code unit: the pieces between the
  occurrences of \<open>c\<close>; the empty string gives one empty piece.\<close>

fun splitOn :: "jschar \<Rightarrow> jsstring \<Rightarrow> jsstring list" where
  "splitOn c [] = [[]]"
| "splitOn c (x # xs) =
     (if x = c then [] # splitOn c xs
      else (case splitOn c xs of p # ps \<Rightarrow> (x # p) # ps | [] \<Rightarrow> [[x]]))"

text \<open>\<open>parts.join(sep)\<close>.\<close>

fun joinWith :: "jsstring \<Rightarrow> jsstring list \<Rightarrow> jsstring" where
  "joinWith sep [] = []"
| "joinWith sep [p] = p"
| "joinWith sep (p # q # ps) = p @ sep @ joinWith sep (q # ps)"

text \<open>\<open>s.includes(c)\<close> for a string of one code unit, and \<open>s.startsWith(p)\<close>.\<close>

definition includesChar :: "jsstring \<Rightarrow> jschar \<Rightarrow> bool" where
  "includesChar s c \<longleftrightarrow> c \<in> set s"

definition startsWith :: "jsstring \<Rightarrow> jsstring \<Rightarrow> bool" where
  "startsWith s p \<longleftrightarrow> take (length p) s = p"

section \<open>Regular expressions\<close>

text \<open>
  The patterns of the source use literals, classes, sequence, alternation, greedy and
  lazy repetition, capture groups, the anchors \<open>^\<close> and \<open>$\<close> (without the \<open>m\<close> flag) and
  the word boundary \<open>\b\<close>.  Matching follows the ECMAScript specification, where a
  pattern denotes a matcher that takes the current state (end index and captures) and a
  continuation: the first alternative whose continuation succeeds wins, and a repetition
  rejects an iteration that consumes nothing.
\<close>

datatype regex =
    Eps
  | Lit jschar
  | Cls "jschar \<Rightarrow> bool"
  | Seq regex regex
  | Alt regex regex
  | Star bool regex
  | Grp nat regex
  | Bol
  | Eol
  | WordB

type_synonym captures = "nat \<rightharpoonup> nat \<times> nat"
type_synonym mstate = "nat \<times> captures"
type_synonym cont = "mstate \<Rightarrow> mstate option"

text \<open>\<open>Star True r\<close> is \<open>r*\<close> and \<open>Star False r\<close> is \<open>r*?\<close>.  Every iteration advances
  the end index by at least one, so the number of iterations that can still follow is
  bounded by the number of code units to the right of the current index: \<open>rep\<close>
  counts them down.\<close>

primrec rep :: "bool \<Rightarrow> nat \<Rightarrow> (cont \<Rightarrow> cont) \<Rightarrow> cont \<Rightarrow> cont" where
  "rep g 0 body k st = k st"
| "rep g (Suc n) body k st =
     (if g then
        (case body (\<lambda>st'. if fst st < fst st' then rep g n body k st' else None) st of
           Some r \<Rightarrow> Some r
         | None \<Rightarrow> k st)
      else
        (case k st of
           Some r \<Rightarrow> Some r
         | None \<Rightarrow> body (\<lambda>st'. if fst st < fst st' then rep g n body k st' else None) st))"

definition isWordAt :: "jsstring \<Rightarrow> nat \<Rightarrow> bool" where
  "isWordAt s i \<longleftrightarrow> i < length s \<and> isWordChar (s ! i)"

primrec matcher :: "regex \<Rightarrow> jsstring \<Rightarrow> cont \<Rightarrow> cont" where
  "matcher Eps s k st = k st"
| "matcher (Lit c) s k st =
     (if fst st < length s \<and> s ! fst st = c then k (Suc (fst st), snd st) else None)"
| "matcher (Cls P) s k st =
     (if fst st < length s \<and> P (s ! fst st) then k (Suc (fst st), snd st) else None)"
| "matcher (Seq a b) s k st = matcher a s (matcher b s k) st"
| "matcher (Alt a b) s k st =
     (case matcher a s k st of Some r \<Rightarrow> Some r | None \<Rightarrow> matcher b s k st)"
| "matcher (Star g r) s k st = rep g (length s - fst st) (matcher r s) k st"
| "matcher (Grp n r) s k st =
     matcher r s (\<lambda>st'. k (fst st', (snd st')(n \<mapsto> (fst st, fst st')))) st"
| "matcher Bol s k st = (if fst st = 0 then k st else None)"
| "matcher Eol s k st = (if fst st = length s then k st else None)"
| "matcher WordB s k st =
     (if (0 < fst st \<and> isWordAt s (fst st - 1)) \<noteq> isWordAt s (fst st) then k st else None)"

text \<open>Pattern syntax: a literal string, the same under the \<open>i\<close> flag, \<open>r+\<close>, the dot
  without and with the \<open>s\<close> flag, and a negated class of one character.\<close>

definition str :: "jsstring \<Rightarrow> regex" where
  "str w = foldr (\<lambda>c r. Seq (Lit c) r) w Eps"

definition stri :: "jsstring \<Rightarrow> regex" where
  "stri w = foldr (\<lambda>c r. Seq (Cls (\<lambda>x. asciiLower x = asciiLower c)) r) w Eps"

definition plusRe :: "regex \<Rightarrow> regex" where
  "plusRe r = Seq r (Star True r)"

definition dot :: regex where
  "dot = Cls (\<lambda>c. \<not> isLineTerminator c)"

definition dotAll :: regex where
  "dotAll = Cls (\<lambda>c. True)"

definition notChar :: "jschar \<Rightarrow> regex" where
  "notChar c = Cls (\<lambda>x. x \<noteq> c)"

text \<open>A match: start index, end index and captures.  \<open>execFrom re s i\<close> is
  \<open>RegExpBuiltinExec\<close> with \<open>lastIndex = i\<close>: the first start index from \<open>i\<close> on at which
  the matcher succeeds.\<close>

type_synonym match = "nat \<times> nat \<times> captures"

fun firstSome :: "('a \<Rightarrow> 'b option) \<Rightarrow> 'a list \<Rightarrow> 'b option" where
  "firstSome f [] = None"
| "firstSome f (x # xs) = (case f x of Some y \<Rightarrow> Some y | None \<Rightarrow> firstSome f xs)"

definition matchAt :: "regex \<Rightarrow> jsstring \<Rightarrow> nat \<Rightarrow> match option" where
  "matchAt re s p =
     (case matcher re s Some (p, Map.empty) of
        Some (e, cs) \<Rightarrow> Some (p, e, cs)
      | None \<Rightarrow> None)"

definition execFrom :: "regex \<Rightarrow> jsstring \<Rightarrow> nat \<Rightarrow> match option" where
  "execFrom re s i = firstSome (matchAt re s) [i..<Suc (length s)]"

text \<open>\<open>s.match(re)\<close> for a pattern without the \<open>g\<close> flag, and the text of a capture
  group of a match (every group read by the source takes part in every match of its
  pattern; a group that did not is \<open>undefined\<close>, here \<open>None\<close>).\<close>

definition matchRe :: "jsstring \<Rightarrow> regex \<Rightarrow> match option" where
  "matchRe s re = execFrom re s 0"

definition group :: "jsstring \<Rightarrow> match \<Rightarrow> nat \<Rightarrow> jsstring option" where
  "group s m n = (case snd (snd m) n of Some (i, j) \<Rightarrow> Some (slice s i j) | None \<Rightarrow> None)"

text \<open>\<open>re.test(s)\<close> for a pattern without the \<open>g\<close> flag.\<close>

definition test :: "regex \<Rightarrow> jsstring \<Rightarrow> bool" where
  "test re s \<longleftrightarrow> execFrom re s 0 \<noteq> None"

text \<open>The loops of the global operations advance \<open>lastIndex\<close> to the end of the match,
  and one further after an empty match.\<close>

lemma firstSome_Some: "firstSome f xs = Some y \<Longrightarrow> \<exists>x \<in> set xs. f x = Some y"
  by (induction xs) (auto split: option.splits)

lemma execFrom_range:
  assumes "execFrom re s i = Some (p, e, cs)"
  shows "i \<le> p \<and> p \<le> length s"
proof -
  from assms obtain x where x: "x \<in> set [i..<Suc (length s)]" "matchAt re s x = Some (p, e, cs)"
    unfolding execFrom_def by (blast dest: firstSome_Some)
  from x(2) have "x = p"
    by (auto simp: matchAt_def split: option.splits)
  with x(1) show ?thesis by auto
qed

text \<open>\<open>s.replace(re, rp)\<close> for a pattern with the \<open>g\<close> flag and a replacement string
  without \<open>$\<close>: \<open>src\<close> is the position up to which the input has been copied.\<close>

function replaceFrom :: "regex \<Rightarrow> jsstring \<Rightarrow> jsstring \<Rightarrow> nat \<Rightarrow> nat \<Rightarrow> jsstring" where
  "replaceFrom re rp s src i =
     (case execFrom re s i of
        None \<Rightarrow> drop src s
      | Some (p, e, cs) \<Rightarrow>
          slice s src p @ rp @ replaceFrom re rp s e (if e \<le> p then Suc p else e))"
  by pat_completeness auto
termination
  by (relation "measure (\<lambda>(re, rp, s, src, i). Suc (length s) - i)")
     (auto dest!: execFrom_range)

definition replaceAll :: "jsstring \<Rightarrow> regex \<Rightarrow> jsstring \<Rightarrow> jsstring" where
  "replaceAll s re rp = replaceFrom re rp s 0 0"

text \<open>\<open>s.match(re)\<close> for a pattern with the \<open>g\<close> flag: the matched substrings, or
  \<open>null\<close> when there is none.\<close>

function matchesFrom :: "regex \<Rightarrow> jsstring \<Rightarrow> nat \<Rightarrow> jsstring list" where
  "matchesFrom re s i =
     (case execFrom re s i of
        None \<Rightarrow> []
      | Some (p, e, cs) \<Rightarrow> slice s p e # matchesFrom re s (if e \<le> p then Suc p else e))"
  by pat_completeness auto
termination
  by (relation "measure (\<lambda>(re, s, i). Suc (length s) - i)")
     (auto dest!: execFrom_range)

definition matchGlobal :: "jsstring \<Rightarrow> regex \<Rightarrow> jsstring list option" where
  "matchGlobal s re = (case matchesFrom re s 0 of [] \<Rightarrow> None | m # ms \<Rightarrow> Some (m # ms))"

section \<open>Errors\<close>

text \<open>A thrown JavaScript error is identified by its \<open>message\<close>, the only property the
  handlers of the source read.  Reading a property of \<open>null\<close> or \<open>undefined\<close> throws a
  \<open>TypeError\<close>.\<close>

datatype error = Error (message: jsstring)

definition typeError :: error where
  "typeError = Error (js ''Cannot read properties of null'')"

definition thenE :: "error + 'a \<Rightarrow> ('a \<Rightarrow> error + 'b) \<Rightarrow> error + 'b" where
  "thenE r f = (case r of Inl e \<Rightarrow> Inl e | Inr x \<Rightarrow> f x)"

section \<open>The parser (parser.js)\<close>

text \<open>\<open>extractInfinitiveFromTitle\<close>: \<open>pageTitle?.match(/^Flexion:(.+)$/)\<close>, the first
  group or \<open>null\<close>; an \<open>undefined\<close> title gives \<open>null\<close>.\<close>

definition titleRe :: regex where
  "titleRe = Seq Bol (Seq (str (js ''Flexion:'')) (Seq (Grp 1 (plusRe dot)) Eol))"

definition extractInfinitiveFromTitle :: "jsstring option \<Rightarrow> jsstring option" where
  "extractInfinitiveFromTitle pageTitle =
     (case pageTitle of
        None \<Rightarrow> None
      | Some t \<Rightarrow> (case matchRe t titleRe of None \<Rightarrow> None | Some m \<Rightarrow> group t m 1))"

text \<open>The patterns of \<open>extractTextFromCell\<close>, in the order of the source.\<close>

definition supRe :: regex where
  \<comment> \<open>\<open>/<sup[^>]*>.*?<\/sup>/gi\<close>\<close>
  "supRe = Seq (stri (js ''<sup'')) (Seq (Star True (notChar 62)) (Seq (Lit 62)
             (Seq (Star False dot) (stri (js ''</sup>'')))))"

definition tagRe :: regex where
  \<comment> \<open>\<open>/<[^>]+>/g\<close>\<close>
  "tagRe = Seq (Lit 60) (Seq (plusRe (notChar 62)) (Lit 62))"

definition entityRe :: regex where
  \<comment> \<open>\<open>/&[^;]+;/g\<close>\<close>
  "entityRe = Seq (Lit 38) (Seq (plusRe (notChar 59)) (Lit 59))"

definition spacesRe :: regex where
  \<comment> \<open>\<open>/\s+/g\<close>\<close>
  "spacesRe = plusRe (Cls isSpace)"

definition erSieEsRe :: regex where
  \<comment> \<open>\<open>/\ber\/sie\/es\b/gi\<close>\<close>
  "erSieEsRe = Seq WordB (Seq (stri (js ''er/sie/es'')) WordB)"

definition pronounRe :: regex where
  \<comment> \<open>\<open>/\b(ich|du|wir|ihr|sie)\b/gi\<close>\<close>
  "pronounRe =
     Seq WordB (Seq (Grp 1 (Alt (stri (js ''ich'')) (Alt (stri (js ''du''))
       (Alt (stri (js ''wir'')) (Alt (stri (js ''ihr'')) (stri (js ''sie''))))))) WordB)"

definition reflexiveAlt :: regex where
  \<comment> \<open>\<open>(mich|dich|sich|uns|euch)\<close> under the \<open>i\<close> flag\<close>
  "reflexiveAlt =
     Grp 1 (Alt (stri (js ''mich'')) (Alt (stri (js ''dich''))
       (Alt (stri (js ''sich'')) (Alt (stri (js ''uns'')) (stri (js ''euch''))))))"

definition reflexiveRe :: regex where
  \<comment> \<open>\<open>/\b(mich|dich|sich|uns|euch)\b/gi\<close>\<close>
  "reflexiveRe = Seq WordB (Seq reflexiveAlt WordB)"

definition extractTextFromCell :: "jsstring \<Rightarrow> jsstring" where
  "extractTextFromCell cell =
     (let text = trim (replaceAll (replaceAll (replaceAll (replaceAll cell
                   supRe []) tagRe (js '' '')) entityRe (js '' '')) spacesRe (js '' ''));
          cleaned = joinWith (js '', '') (filter (\<lambda>s. s \<noteq> []) (map trim (splitOn 44
                      (replaceAll (replaceAll (replaceAll (replaceAll text
                         erSieEsRe (js '','')) pronounRe (js '','')) reflexiveRe [])
                         spacesRe (js '' '')))))
      in cleaned)"

text \<open>The six person/number slots.  A conjugation object of the source is either \<open>{}\<close>
  or has the six slots: a map from slots to strings.\<close>

datatype slot = Sg1 | Sg2 | Sg3 | Pl1 | Pl2 | Pl3

type_synonym forms = "slot \<rightharpoonup> jsstring"

definition cellRe :: regex where
  \<comment> \<open>\<open>/<td>(.*?)\n<\/td>/\<close>\<close>
  "cellRe = Seq (str (js ''<td>'')) (Seq (Grp 1 (Star False dot)) (str (10 # js ''</td>'')))"

text \<open>\<open>rows[i].match(/<td>(.*?)\n<\/td>/)[1]\<close>: indexing the result \<open>null\<close> of a failed
  match throws.\<close>

definition cellOf :: "jsstring \<Rightarrow> error + jsstring" where
  "cellOf row =
     (case matchRe row cellRe of
        None \<Rightarrow> Inl typeError
      | Some m \<Rightarrow> (case group row m 1 of None \<Rightarrow> Inl typeError
                   | Some c \<Rightarrow> Inr (extractTextFromCell c)))"

definition parseConjugationRows :: "jsstring list option \<Rightarrow> error + forms" where
  "parseConjugationRows rows =
     (case rows of
        None \<Rightarrow> Inr Map.empty
      | Some rs \<Rightarrow>
          if length rs < 6 then Inr Map.empty
          else
            thenE (cellOf (rs ! 0)) (\<lambda>c1.
            thenE (cellOf (rs ! 1)) (\<lambda>c2.
            thenE (cellOf (rs ! 2)) (\<lambda>c3.
            thenE (cellOf (rs ! 3)) (\<lambda>c4.
            thenE (cellOf (rs ! 4)) (\<lambda>c5.
            thenE (cellOf (rs ! 5)) (\<lambda>c6.
            Inr [Sg1 \<mapsto> c1, Sg2 \<mapsto> c2, Sg3 \<mapsto> c3, Pl1 \<mapsto> c4, Pl2 \<mapsto> c5, Pl3 \<mapsto> c6])))))))"

text \<open>The result object of \<open>parseConjugations\<close>.\<close>

record parsed =
  separablePrefix :: jsstring
  infinitive :: jsstring
  praesens :: forms
  praeteritum :: forms
  perfekt :: forms
  plusquamperfekt :: forms
  futur1 :: forms
  futur2 :: forms

definition h2Re :: regex where
  \<comment> \<open>\<open>/<h2[^>]*>(.*?)<\/h2>/\<close>\<close>
  "h2Re = Seq (str (js ''<h2'')) (Seq (Star True (notChar 62)) (Seq (Lit 62)
            (Seq (Grp 1 (Star False dot)) (str (js ''</h2>'')))))"

definition anyTagRe :: regex where
  \<comment> \<open>\<open>/<[^>]+>/g\<close>\<close>
  "anyTagRe = Seq (Lit 60) (Seq (plusRe (notChar 62)) (Lit 62))"

definition infinitiveRe :: regex where
  \<comment> \<open>\<open>/^([^\s(]+)\s*\(Konjugation\)/\<close>\<close>
  "infinitiveRe =
     Seq Bol (Seq (Grp 1 (plusRe (Cls (\<lambda>c. \<not> isSpace c \<and> c \<noteq> 40))))
       (Seq (Star True (Cls isSpace)) (str (js ''(Konjugation)''))))"

text \<open>The head of a tense table, \<open><td colspan="\d+"[^>]*>\<close>, and the pattern of a tense
  section under the \<open>s\<close> flag:
  \<open>/<td colspan="\d+"[^>]*>.*?<b>.*?LABEL<\/a><\/b>\n<\/td><\/tr>(.*?)END/s\<close>.\<close>

definition colspanRe :: regex where
  "colspanRe = Seq (str (js ''<td colspan='' @ [34])) (Seq (plusRe (Cls isDigit))
                 (Seq (Lit 34) (Seq (Star True (notChar 62)) (Lit 62))))"

definition sectionRe :: "jsstring \<Rightarrow> regex \<Rightarrow> regex" where
  "sectionRe label end =
     Seq colspanRe (Seq (Star False dotAll) (Seq (str (js ''<b>'')) (Seq (Star False dotAll)
       (Seq (str (label @ js ''</a></b>'' @ 10 # js ''</td></tr>''))
         (Seq (Grp 1 (Star False dotAll)) end)))))"

definition nextSpan :: regex where
  \<comment> \<open>\<open><td colspan="\d+"[^>]*><span\<close>\<close>
  "nextSpan = Seq colspanRe (str (js ''<span''))"

definition tableEnd :: regex where
  \<comment> \<open>\<open><\/tbody><\/table>\<close>\<close>
  "tableEnd = str (js ''</tbody></table>'')"

definition rowRe :: regex where
  \<comment> \<open>\<open>/<tr>\n<td[^>]*><small>(.*?)<\/small>\n<\/td>\n<td>(.*?)\n<\/td>/g\<close>\<close>
  "rowRe =
     Seq (str (js ''<tr>'' @ 10 # js ''<td'')) (Seq (Star True (notChar 62))
       (Seq (str (js ''><small>'')) (Seq (Grp 1 (Star False dot))
         (Seq (str (js ''</small>'' @ 10 # js ''</td>'' @ [10]))
           (Seq (str (js ''<td>'')) (Seq (Grp 2 (Star False dot)) (str (10 # js ''</td>''))))))))"

text \<open>One tense: \<open>const sec = text.match(re); if (sec) { const rows = sec[1].match(rowRe);
  result.t = parseConjugationRows(rows); }\<close>, the slot set staying \<open>{}\<close> otherwise.\<close>

definition parseSection :: "jsstring \<Rightarrow> regex \<Rightarrow> error + forms" where
  "parseSection text re =
     (case matchRe text re of
        None \<Rightarrow> Inr Map.empty
      | Some m \<Rightarrow> (case group text m 1 of
                     None \<Rightarrow> Inl typeError
                   | Some sec \<Rightarrow> parseConjugationRows (matchGlobal sec rowRe)))"

text \<open>The infinitive of the \<open>h2\<close> heading; the empty string when there is none.\<close>

definition parseInfinitive :: "jsstring \<Rightarrow> error + jsstring" where
  "parseInfinitive text =
     (case matchRe text h2Re of
        None \<Rightarrow> Inr []
      | Some h2Match \<Rightarrow>
          (case group text h2Match 1 of
             None \<Rightarrow> Inl typeError
           | Some g \<Rightarrow>
               (let h2Text = replaceAll g anyTagRe []
                in case matchRe h2Text infinitiveRe of
                     None \<Rightarrow> Inr []
                   | Some infinitiveMatch \<Rightarrow>
                       (case group h2Text infinitiveMatch 1 of
                          None \<Rightarrow> Inr []
                        | Some i \<Rightarrow> Inr i))))"

text \<open>The detection of the separable prefix, the last step of \<open>parseConjugations\<close>: the
  new value of \<open>result.separablePrefix\<close>, which is \<open>""\<close> before.\<close>

definition reflexive :: regex where
  \<comment> \<open>\<open>/^(mich|dich|sich|uns|euch)$/i\<close>\<close>
  "reflexive = Seq Bol (Seq reflexiveAlt Eol)"

definition detectSeparablePrefix :: "forms \<Rightarrow> error + jsstring" where
  "detectSeparablePrefix pr =
     (case pr Sg1 of
        None \<Rightarrow> Inr []
      | Some sg1 \<Rightarrow>
          if sg1 = [] then Inr []
          else (case splitOn 44 sg1 of
                  [] \<Rightarrow> Inl typeError
                | first # _ \<Rightarrow>
                    (let firstForm = trim first
                     in if includesChar firstForm 32 then
                          (let parts = splitOn 32 firstForm
                           in if 2 \<le> length parts then
                                Inr (joinWith (js '' '')
                                       (filter (\<lambda>p. \<not> test reflexive p) (drop 1 parts)))
                              else Inr [])
                        else Inr [])))"

text \<open>The labels of the six tenses.  The first two hold the code unit U+CC44 where the
  German word has U+00E4: the patterns are taken as the source file has them.\<close>

definition praesensLabel :: jsstring where
  "praesensLabel = js ''Pr'' @ 52292 # js ''sens''"

definition praeteritumLabel :: jsstring where
  "praeteritumLabel = js ''Pr'' @ 52292 # js ''teritum''"

definition parseConjugations :: "jsstring option \<Rightarrow> error + parsed option" where
  "parseConjugations text0 =
     (case text0 of
        None \<Rightarrow> Inr None
      | Some text \<Rightarrow>
          if text = [] then Inr None
          else
            thenE (parseInfinitive text) (\<lambda>name.
            thenE (parseSection text (sectionRe praesensLabel nextSpan)) (\<lambda>pr.
            thenE (parseSection text (sectionRe praeteritumLabel nextSpan)) (\<lambda>pt.
            thenE (parseSection text (sectionRe (js ''Perfekt'') nextSpan)) (\<lambda>pf.
            thenE (parseSection text (sectionRe (js ''Plusquamperfekt'') tableEnd)) (\<lambda>pq.
            thenE (parseSection text (sectionRe (js ''Futur I'') nextSpan)) (\<lambda>f1.
            thenE (parseSection text (sectionRe (js ''Futur II'') tableEnd)) (\<lambda>f2.
            thenE (detectSeparablePrefix pr) (\<lambda>sp.
            Inr (Some \<lparr> separablePrefix = sp, infinitive = name, praesens = pr,
                        praeteritum = pt, perfekt = pf, plusquamperfekt = pq,
                        futur1 = f1, futur2 = f2 \<rparr>))))))))))"

section \<open>The completeness check (scrape.js)\<close>

definition requiredForms :: "slot list" where
  "requiredForms = [Sg1, Sg2, Sg3, Pl1, Pl2, Pl3]"

text \<open>\<open>forms[form] && forms[form] !== "\<emdash>" && forms[form].trim() !== ""\<close>, where the
  placeholder is the one code unit U+2014.\<close>

definition hasAllForms :: "forms \<Rightarrow> bool" where
  "hasAllForms forms =
     list_all (\<lambda>form. case forms form of
                         None \<Rightarrow> False
                       | Some v \<Rightarrow> v \<noteq> [] \<and> v \<noteq> [8212] \<and> trim v \<noteq> [])
       requiredForms"

section \<open>The database (schema.sql, db.js)\<close>

text \<open>
  The tables \<open>verbs\<close> and \<open>verb_conjugations\<close> of the schema, as lists of rows.  The
  columns \<open>created_at\<close> and \<open>updated_at\<close> and the table \<open>verb_translations\<close>, which no
  statement of the scraper names, are left out.  \<open>seq\<close> is the entry of \<open>verbs\<close> in
  \<open>sqlite_sequence\<close>: the largest row id the \<open>AUTOINCREMENT\<close> key has ever had.
\<close>

record verb_row =
  v_id :: nat
  v_infinitive :: jsstring
  v_separable_prefix :: "jsstring option"
  v_is_irregular :: nat
  v_usage_popularity :: int

record conj_row =
  c_verb_id :: nat
  c_tense :: jsstring
  c_sg1 :: jsstring
  c_sg2 :: jsstring
  c_sg3 :: jsstring
  c_pl1 :: jsstring
  c_pl2 :: jsstring
  c_pl3 :: jsstring
  c_notes :: "jsstring option"

record database =
  verbs :: "verb_row list"
  verb_conjugations :: "conj_row list"
  seq :: nat

text \<open>What \<open>stmt.run\<close> returns.\<close>

record run_info =
  changes :: nat
  lastInsertRowid :: nat

text \<open>
  \<open>INSERT OR REPLACE INTO verbs (infinitive, separable_prefix, is_irregular,
  usage_popularity) VALUES (?, ?, ?, ?)\<close>.  The rows that hold the new infinitive violate
  \<open>UNIQUE (infinitive)\<close>; the \<open>REPLACE\<close> resolution deletes them, and with
  \<open>foreign_keys = ON\<close> each deletion runs the \<open>ON DELETE CASCADE\<close> action of
  \<open>verb_conjugations.verb_id\<close>.  The new row then gets the next \<open>AUTOINCREMENT\<close> id, one
  more than the largest id ever used.  The statement changes one row: the rows deleted by
  \<open>REPLACE\<close> are not counted.
\<close>

definition nextId :: "database \<Rightarrow> nat" where
  "nextId d = Suc (max (seq d) (Max (set (0 # map v_id (verbs d)))))"

definition replaceIntoVerbs ::
  "database \<Rightarrow> jsstring \<Rightarrow> jsstring option \<Rightarrow> nat \<Rightarrow> int \<Rightarrow> database \<times> run_info" where
  "replaceIntoVerbs d name sp irr pop =
     (let gone = map v_id (filter (\<lambda>r. v_infinitive r = name) (verbs d));
          new = nextId d
      in (d\<lparr> verbs := filter (\<lambda>r. v_infinitive r \<noteq> name) (verbs d) @
                  [\<lparr> v_id = new, v_infinitive = name, v_separable_prefix = sp,
                     v_is_irregular = irr, v_usage_popularity = pop \<rparr>],
              verb_conjugations := filter (\<lambda>c. c_verb_id c \<notin> set gone) (verb_conjugations d),
              seq := new \<rparr>,
          \<lparr> changes = 1, lastInsertRowid = new \<rparr>))"

text \<open>The argument object of \<open>insertVerb\<close>, after its defaults.\<close>

record verb_args =
  a_infinitive :: jsstring
  a_separablePrefix :: "jsstring option"
  a_isIrregular :: bool
  a_usagePopularity :: int

definition insertVerb :: "database \<Rightarrow> verb_args \<Rightarrow> error + database \<times> nat" where
  "insertVerb d v =
     (let (d', result) = replaceIntoVerbs d (a_infinitive v) (a_separablePrefix v)
                           (if a_isIrregular v then 1 else 0) (a_usagePopularity v)
      in if changes result = 0 then
           (case filter (\<lambda>r. v_infinitive r = a_infinitive v) (verbs d') of
              [] \<Rightarrow> Inl typeError
            | existing # _ \<Rightarrow> Inr (d', v_id existing))
         else Inr (d', lastInsertRowid result))"

text \<open>
  \<open>INSERT OR REPLACE INTO verb_conjugations (\<dots>) VALUES (\<dots>)\<close>: the row with the same
  primary key \<open>(verb_id, tense)\<close> is deleted first.  The six slot columns are \<open>NOT NULL\<close>,
  for which \<open>REPLACE\<close> falls back to aborting the statement, and \<open>verb_id\<close> must be the id
  of a verb: a missing slot or an unknown verb makes \<open>stmt.run\<close> throw.
\<close>

definition constraintError :: error where
  "constraintError = Error (js ''constraint failed'')"

definition insertConjugation ::
  "database \<Rightarrow> nat \<Rightarrow> jsstring \<Rightarrow> forms \<Rightarrow> error + database" where
  "insertConjugation d verbId tense forms =
     (case (forms Sg1, forms Sg2, forms Sg3, forms Pl1, forms Pl2, forms Pl3) of
        (Some f1, Some f2, Some f3, Some f4, Some f5, Some f6) \<Rightarrow>
          if verbId \<in> set (map v_id (verbs d)) then
            Inr (d\<lparr> verb_conjugations :=
                     filter (\<lambda>c. \<not> (c_verb_id c = verbId \<and> c_tense c = tense))
                       (verb_conjugations d) @
                     [\<lparr> c_verb_id = verbId, c_tense = tense, c_sg1 = f1, c_sg2 = f2,
                        c_sg3 = f3, c_pl1 = f4, c_pl2 = f5, c_pl3 = f6, c_notes = None \<rparr>] \<rparr>)
          else Inl constraintError
      | _ \<Rightarrow> Inl constraintError)"

text \<open>\<open>getIncompleteVerbs\<close>: the verbs with fewer than three distinct required tenses,
  ordered by infinitive.  \<open>ORDER BY\<close> on a \<open>TEXT\<close> column without a collation compares the
  stored UTF-8 bytes, which is the order of the code points and not that of the UTF-16
  code units of the string: a surrogate pair stands for one code point above \<open>U+FFFF\<close>,
  and a surrogate without its partner is stored as \<open>U+FFFD\<close>.\<close>

definition isSurrogate :: "jschar \<Rightarrow> bool" where
  "isSurrogate c \<longleftrightarrow> 55296 \<le> c \<and> c \<le> 57343"

fun codePoints :: "jsstring \<Rightarrow> nat list" where
  "codePoints [] = []"
| "codePoints [x] = [if isSurrogate x then 65533 else x]"
| "codePoints (x # y # s) =
     (if 55296 \<le> x \<and> x \<le> 56319 \<and> 56320 \<le> y \<and> y \<le> 57343
      then (65536 + (x - 55296) * 1024 + (y - 56320)) # codePoints s
      else (if isSurrogate x then 65533 else x) # codePoints (y # s))"

definition requiredTenses :: "jsstring list" where
  "requiredTenses = [js ''praesens'', js ''praeteritum'', js ''perfekt'']"

definition getIncompleteVerbs :: "database \<Rightarrow> (nat \<times> jsstring) list" where
  "getIncompleteVerbs d =
     map (\<lambda>v. (v_id v, v_infinitive v))
       (sort_key (\<lambda>v. codePoints (v_infinitive v))
          (filter (\<lambda>v. card (set (filter (\<lambda>t. t \<in> set requiredTenses)
                                 (map c_tense (filter (\<lambda>c. c_verb_id c = v_id v)
                                    (verb_conjugations d))))) < 3)
             (verbs d)))"

section \<open>The rate-limited client (api.js)\<close>

text \<open>
  Time is the reading of \<open>Date.now()\<close> in milliseconds.  It advances while the flow of
  control is suspended or busy: before a request is made (\<open>before\<close>), while the timer of
  \<open>waitForRateLimit\<close> runs, and until \<open>fetch\<close> settles (\<open>latency\<close>).  The timer does not run
  on the clock that \<open>Date.now()\<close> reads, which is rounded to milliseconds and can be set:
  when the flow resumes, \<open>Date.now()\<close> has advanced by the delay asked for and by \<open>late\<close>,
  which is negative when the reading falls short of the delay.  \<open>waitForRateLimit\<close> reads
  the clock again after the timer and does not check the interval a second time.  These
  durations and the outcome of \<open>fetch\<close> are given by the environment, one \<open>exchange\<close> for
  each request.
\<close>

record net =
  now :: int
  lastRequestTime :: int

definition RATE_LIMIT_MS :: int where
  "RATE_LIMIT_MS = 100"

definition waitForRateLimit :: "int \<Rightarrow> net \<Rightarrow> net" where
  "waitForRateLimit lt n =
     (let timeSinceLastRequest = now n - lastRequestTime n;
          n1 = (if timeSinceLastRequest < RATE_LIMIT_MS then
                  (let waitTime = RATE_LIMIT_MS - timeSinceLastRequest
                   in n\<lparr> now := now n + waitTime + lt \<rparr>)
                else n)
      in n1\<lparr> lastRequestTime := now n1 \<rparr>)"

text \<open>The fields of a JSON answer that the client reads: \<open>query.categorymembers[].title\<close>,
  \<open>continue.cmcontinue\<close>, \<open>parse.text["*"]\<close> and \<open>parse.wikitext["*"]\<close>.\<close>

record payload =
  p_categorymembers :: "jsstring list option"
  p_cmcontinue :: "jsstring option"
  p_text :: "jsstring option"
  p_wikitext :: "jsstring option"

record response =
  status :: nat
  statusText :: jsstring
  json :: "error + payload"

datatype fetched = Rejected error | Resolved response

record exchange =
  before :: nat
  late :: int
  latency :: nat
  answer :: fetched

text \<open>The two requests of the client: a page of the category listing from a token on,
  and the parsed text (or the wikitext) of a page.  A \<open>server\<close> tells how a request is
  answered.\<close>

datatype request =
    CategoryMembers jsstring "jsstring option"
  | Parse jsstring bool

type_synonym server = "request \<Rightarrow> exchange"

fun decimal :: "nat \<Rightarrow> jsstring" where
  "decimal n = (if n < 10 then [48 + n] else decimal (n div 10) @ [48 + n mod 10])"

definition rateLimitError :: error where
  "rateLimitError = Error (js ''RATE_LIMIT: Too many requests. Please wait and try again.'')"

definition httpError :: "response \<Rightarrow> error" where
  "httpError r = Error (js ''HTTP error: '' @ decimal (status r) @ js '' '' @ statusText r)"

definition apiRequest :: "server \<Rightarrow> request \<Rightarrow> net \<Rightarrow> (error + payload) \<times> net" where
  "apiRequest srv params n =
     (let x = srv params;
          n1 = waitForRateLimit (late x) (n\<lparr> now := now n + int (before x) \<rparr>);
          n2 = n1\<lparr> now := now n1 + int (latency x) \<rparr>
      in (case answer x of
            Rejected e \<Rightarrow> Inl e
          | Resolved r \<Rightarrow>
              if status r = 429 then Inl rateLimitError
              else if \<not> (200 \<le> status r \<and> status r \<le> 299) then Inl (httpError r)
              else json r,
          n2))"

text \<open>\<open>getCategoryMembers\<close>: the titles of one page of the listing and the token of the
  next; \<open>x || null\<close> turns an empty token into \<open>null\<close>.\<close>

definition orNull :: "jsstring option \<Rightarrow> jsstring option" where
  "orNull v = (case v of None \<Rightarrow> None | Some t \<Rightarrow> if t = [] then None else Some t)"

definition getCategoryMembers ::
  "server \<Rightarrow> jsstring \<Rightarrow> jsstring option \<Rightarrow> net \<Rightarrow>
     (error + jsstring list \<times> jsstring option) \<times> net" where
  "getCategoryMembers srv category resumeToken n =
     (case apiRequest srv (CategoryMembers category resumeToken) n of
        (Inl e, n') \<Rightarrow> (Inl e, n')
      | (Inr data, n') \<Rightarrow>
          (Inr (case p_categorymembers data of None \<Rightarrow> [] | Some ms \<Rightarrow> ms,
                orNull (p_cmcontinue data)), n'))"

text \<open>\<open>getPageText(pageTitle)\<close> with the default \<open>prop = "text"\<close>, and with
  \<open>prop = "wikitext"\<close>.\<close>

definition getPageText ::
  "server \<Rightarrow> jsstring \<Rightarrow> bool \<Rightarrow> net \<Rightarrow> (error + jsstring option) \<times> net" where
  "getPageText srv pageTitle wikitext n =
     (case apiRequest srv (Parse pageTitle wikitext) n of
        (Inl e, n') \<Rightarrow> (Inl e, n')
      | (Inr data, n') \<Rightarrow>
          (Inr (orNull (if wikitext then p_wikitext data else p_text data)), n'))"

section \<open>The checkpoint file (state.js)\<close>

datatype phase = fetching_verbs | fetching_conjugations | completed

record ScraperState =
  phase :: phase
  verbListContinueToken :: "jsstring option"
  verbList :: "jsstring list"
  processedVerbIndex :: int
  lastUpdated :: int

text \<open>The state file is absent, or holds text that \<open>JSON.parse\<close> rejects, or holds a
  state.  The world of a run: the clock and the limiter, the number of requests made so
  far, the state file and the database.  Its environment \<open>env\<close> tells how the server answers
  the first, second, \<dots> request.\<close>

datatype stateFile = Unreadable | Checkpoint ScraperState

record world =
  w_net :: net
  w_calls :: nat
  w_file :: "stateFile option"
  w_db :: database

type_synonym env = "nat \<Rightarrow> server"

definition getDefaultState :: "world \<Rightarrow> ScraperState" where
  "getDefaultState w =
     \<lparr> phase = fetching_verbs, verbListContinueToken = None, verbList = [],
       processedVerbIndex = - 1, lastUpdated = now (w_net w) \<rparr>"

definition hasState :: "world \<Rightarrow> bool" where
  "hasState w \<longleftrightarrow> w_file w \<noteq> None"

definition loadState :: "world \<Rightarrow> ScraperState" where
  "loadState w =
     (case w_file w of
        None \<Rightarrow> getDefaultState w
      | Some Unreadable \<Rightarrow> getDefaultState w
      | Some (Checkpoint st) \<Rightarrow> st)"

text \<open>\<open>saveState\<close> stamps the state object and writes it; the stamped state and the new
  world are returned.\<close>

definition saveState :: "ScraperState \<Rightarrow> world \<Rightarrow> ScraperState \<times> world" where
  "saveState state w =
     (let state' = state\<lparr> lastUpdated := now (w_net w) \<rparr>
      in (state', w\<lparr> w_file := Some (Checkpoint state') \<rparr>))"

text \<open>
  \<open>getAllCategoryMembers\<close>: the \<open>do \<dots> while (continueToken)\<close> loop, which runs for as
  long as the server hands out tokens.  \<open>fuel\<close> bounds the number of pages; the result is
  \<open>None\<close> when it is used up.  The callback \<open>onProgress\<close> may write to the world and to the
  variables \<open>c\<close> of its caller.
\<close>

primrec getAllCategoryMembers ::
  "nat \<Rightarrow> env \<Rightarrow> jsstring \<Rightarrow> (jsstring list \<Rightarrow> jsstring option \<Rightarrow> world \<Rightarrow> 'c \<Rightarrow> world \<times> 'c) \<Rightarrow>
     jsstring option \<Rightarrow> jsstring list \<Rightarrow> world \<Rightarrow> 'c \<Rightarrow> (error + jsstring list) option \<times> world \<times> 'c"
where
  "getAllCategoryMembers 0 env category onProgress continueToken allMembers w c = (None, w, c)"
| "getAllCategoryMembers (Suc fuel) env category onProgress continueToken allMembers w c =
     (case getCategoryMembers (env (w_calls w)) category continueToken (w_net w) of
        (r, n') \<Rightarrow>
          (let w1 = w\<lparr> w_net := n', w_calls := Suc (w_calls w) \<rparr>
           in case r of
                Inl e \<Rightarrow> (Some (Inl e), w1, c)
              | Inr (members, nextToken) \<Rightarrow>
                  (case onProgress members nextToken w1 c of
                     (w2, c2) \<Rightarrow>
                       if nextToken \<noteq> None then
                         getAllCategoryMembers fuel env category onProgress nextToken
                           (allMembers @ members) w2 c2
                       else (Some (Inr (allMembers @ members)), w2, c2))))"

section \<open>The scraper (scrape.js)\<close>

text \<open>What a run does is recorded as a list of events: the line printed when the loop
  takes up a title (\<open>Skipping\<close> or \<open>Processing\<close>, with the index of the title), an error
  arriving in the handler of a title, and each write of the state file.\<close>

datatype event =
    Skipping int
  | Processing int jsstring
  | Caught int error
  | Saved ScraperState

text \<open>How a part of \<open>main\<close> ends: it runs to its end, an error leaves it, \<open>process.exit\<close>
  ends the process, or the enumeration is out of fuel.\<close>

datatype signal = Normal | Throw error | Exit nat | Stuck

definition CATEGORY_NAME :: jsstring where
  "CATEGORY_NAME = js ''Verbkonjugation_unregelm'' @ 228 # 223 # js ''ig_(Deutsch)''"

definition isRateLimit :: "error \<Rightarrow> bool" where
  "isRateLimit e \<longleftrightarrow> startsWith (message e) (js ''RATE_LIMIT'')"

text \<open>The state a run starts from: the saved one when resuming and there is a state file,
  a fresh one otherwise.\<close>

definition initialState :: "bool \<Rightarrow> world \<Rightarrow> ScraperState" where
  "initialState resume w =
     (if resume \<and> hasState w then loadState w
      else \<lparr> phase = fetching_verbs, verbListContinueToken = None, verbList = [],
             processedVerbIndex = - 1, lastUpdated = now (w_net w) \<rparr>)"

text \<open>The callback given to \<open>getAllCategoryMembers\<close>.\<close>

definition onPage ::
  "jsstring list \<Rightarrow> jsstring option \<Rightarrow> world \<Rightarrow> ScraperState \<times> event list \<Rightarrow>
     world \<times> ScraperState \<times> event list" where
  "onPage newMembers continueToken w c =
     (case c of (state, evs) \<Rightarrow>
        (case saveState (state\<lparr> verbList := verbList state @ newMembers,
                                verbListContinueToken := continueToken \<rparr>) w of
           (state', w') \<Rightarrow> (w', state', evs @ [Saved state'])))"

text \<open>Phase 1: the list of titles, from the database or from the category.\<close>

definition fetchVerbs ::
  "bool \<Rightarrow> nat \<Rightarrow> env \<Rightarrow> ScraperState \<Rightarrow> world \<Rightarrow> signal \<times> ScraperState \<times> world \<times> event list" where
  "fetchVerbs incompleteMode fuel env state w =
     (if incompleteMode then
        (let incompleteVerbs = getIncompleteVerbs (w_db w);
             state1 = state\<lparr> verbList := map (\<lambda>v. js ''Flexion:'' @ snd v) incompleteVerbs \<rparr>
         in case saveState (state1\<lparr> phase := fetching_conjugations \<rparr>) w of
              (state2, w2) \<Rightarrow> (Normal, state2, w2, [Saved state2]))
      else
        (case getAllCategoryMembers fuel env CATEGORY_NAME onPage
                (verbListContinueToken state) [] w (state, []) of
           (None, w1, state1, evs) \<Rightarrow> (Stuck, state1, w1, evs)
         | (Some (Inl e), w1, state1, evs) \<Rightarrow> (Throw e, state1, w1, evs)
         | (Some (Inr allMembers), w1, state1, evs) \<Rightarrow>
             (case saveState (state1\<lparr> phase := fetching_conjugations \<rparr>) w1 of
                (state2, w2) \<Rightarrow> (Normal, state2, w2, evs @ [Saved state2]))))"

text \<open>The tenses that have all required forms, as \<open>(tense, forms, label)\<close>.\<close>

definition validTenses :: "parsed \<Rightarrow> (jsstring \<times> forms \<times> jsstring) list" where
  "validTenses conjugations =
     (if hasAllForms (praesens conjugations)
      then [(js ''praesens'', praesens conjugations, js ''Pr'' @ 228 # js ''sens'')] else []) @
     (if hasAllForms (praeteritum conjugations)
      then [(js ''praeteritum'', praeteritum conjugations, js ''Pr'' @ 228 # js ''teritum'')]
      else []) @
     (if hasAllForms (perfekt conjugations)
      then [(js ''perfekt'', perfekt conjugations, js ''Perfekt'')] else [])"

text \<open>\<open>for (const { tense, forms, label } of validTenses) insertConjugation(\<dots>)\<close>: an
  error leaves the loop, the rows written before it stay.\<close>

fun insertConjugations ::
  "database \<Rightarrow> nat \<Rightarrow> (jsstring \<times> forms \<times> jsstring) list \<Rightarrow> error option \<times> database" where
  "insertConjugations d verbId [] = (None, d)"
| "insertConjugations d verbId ((tense, forms, label) # rest) =
     (case insertConjugation d verbId tense forms of
        Inl e \<Rightarrow> (Some e, d)
      | Inr d' \<Rightarrow> insertConjugations d' verbId rest)"

text \<open>What follows a successful parse in the \<open>try\<close> block: the valid tenses are
  collected, and the verb with its conjugations is stored when there are three.\<close>

datatype title_result = PageMissing | Unparsed | Incomplete nat | Written | Threw error

definition verbArgs :: "jsstring \<Rightarrow> parsed \<Rightarrow> verb_args" where
  \<comment> \<open>the object given to \<open>insertVerb\<close>\<close>
  "verbArgs name conjugations =
     \<lparr> a_infinitive = name, a_separablePrefix = Some (separablePrefix conjugations),
       a_isIrregular = True, a_usagePopularity = 0 \<rparr>"

definition storeVerb :: "database \<Rightarrow> jsstring \<Rightarrow> parsed \<Rightarrow> title_result \<times> database" where
  "storeVerb d name conjugations =
     (let valid = validTenses conjugations
      in if length valid < 3 then (Incomplete (length valid), d)
         else (case insertVerb d (verbArgs name conjugations) of
                 Inl e \<Rightarrow> (Threw e, d)
               | Inr (d1, verbId) \<Rightarrow>
                   (case insertConjugations d1 verbId valid of
                      (Some e, d2) \<Rightarrow> (Threw e, d2)
                    | (None, d2) \<Rightarrow> (Written, d2))))"

text \<open>The \<open>try\<close> block of the loop body, for the title with infinitive \<open>name\<close>.\<close>

definition tryTitle :: "server \<Rightarrow> jsstring \<Rightarrow> world \<Rightarrow> title_result \<times> world" where
  "tryTitle srv name w =
     (case getPageText srv (js ''Flexion:'' @ name) False (w_net w) of
        (r, n') \<Rightarrow>
          (let w1 = w\<lparr> w_net := n', w_calls := Suc (w_calls w) \<rparr>
           in case r of
                Inl e \<Rightarrow> (Threw e, w1)
              | Inr None \<Rightarrow> (PageMissing, w1)
              | Inr (Some wikitext) \<Rightarrow>
                  (case parseConjugations (Some wikitext) of
                     Inl e \<Rightarrow> (Threw e, w1)
                   | Inr None \<Rightarrow> (Unparsed, w1)
                   | Inr (Some conjugations) \<Rightarrow>
                       (case storeVerb (w_db w1) name conjugations of
                          (res, d) \<Rightarrow> (res, w1\<lparr> w_db := d \<rparr>)))))"

text \<open>\<open>state.verbList[i]\<close>, which is \<open>undefined\<close> outside the list.\<close>

definition titleAt :: "jsstring list \<Rightarrow> int \<Rightarrow> jsstring option" where
  "titleAt xs i = (if 0 \<le> i \<and> i < int (length xs) then Some (xs ! nat i) else None)"

text \<open>\<open>state.processedVerbIndex = j; saveState(state)\<close>.\<close>

definition checkpointAt ::
  "int \<Rightarrow> ScraperState \<Rightarrow> world \<Rightarrow> ScraperState \<times> world" where
  "checkpointAt j state w = saveState (state\<lparr> processedVerbIndex := j \<rparr>) w"

text \<open>The body of the loop over the titles, for index \<open>i\<close>.  A title without infinitive or
  with a space in it is skipped.  Every path of the \<open>try\<close> block that does not throw,
  whether through \<open>continue\<close> or through its end, sets the index to \<open>i\<close> and saves; so
  does the handler for an error that is not a rate limit.  The rate limit sets the index
  to \<open>i - 1\<close>, saves and exits with code 1.\<close>

definition handleTitle ::
  "env \<Rightarrow> int \<Rightarrow> ScraperState \<Rightarrow> world \<Rightarrow> signal \<times> ScraperState \<times> world \<times> event list" where
  "handleTitle env i state w =
     (let verbTitle = titleAt (verbList state) i;
          infinitive = extractInfinitiveFromTitle verbTitle;
          skip = (case checkpointAt i state w of
                    (state', w') \<Rightarrow> (Normal, state', w', [Skipping i, Saved state']))
      in case infinitive of
           None \<Rightarrow> skip
         | Some name \<Rightarrow>
             if includesChar name 32 then skip
             else
               (case tryTitle (env (w_calls w)) name w of
                  (Threw e, w1) \<Rightarrow>
                    if isRateLimit e then
                      (case checkpointAt (i - 1) state w1 of
                         (state', w') \<Rightarrow>
                           (Exit 1, state', w', [Processing i name, Caught i e, Saved state']))
                    else
                      (case checkpointAt i state w1 of
                         (state', w') \<Rightarrow>
                           (Normal, state', w', [Processing i name, Caught i e, Saved state']))
                | (res, w1) \<Rightarrow>
                    (case checkpointAt i state w1 of
                       (state', w') \<Rightarrow>
                         (Normal, state', w', [Processing i name, Saved state']))))"

text \<open>\<open>for (let i = startIndex; i < totalVerbs; i++)\<close>.\<close>

function processFrom ::
  "env \<Rightarrow> int \<Rightarrow> int \<Rightarrow> ScraperState \<Rightarrow> world \<Rightarrow> signal \<times> ScraperState \<times> world \<times> event list" where
  "processFrom env totalVerbs i state w =
     (if i < totalVerbs then
        (case handleTitle env i state w of
           (sg, state1, w1, evs) \<Rightarrow>
             if sg = Normal then
               (case processFrom env totalVerbs (i + 1) state1 w1 of
                  (sg2, state2, w2, evs2) \<Rightarrow> (sg2, state2, w2, evs @ evs2))
             else (sg, state1, w1, evs))
      else (Normal, state, w, []))"
  by pat_completeness auto
termination
  by (relation "measure (\<lambda>(env, totalVerbs, i, state, w). nat (totalVerbs - i))") auto

text \<open>Phase 2: the conjugations of each title after the last one processed.\<close>

definition fetchConjugations ::
  "env \<Rightarrow> ScraperState \<Rightarrow> world \<Rightarrow> signal \<times> ScraperState \<times> world \<times> event list" where
  "fetchConjugations env state w =
     (let startIndex = processedVerbIndex state + 1;
          totalVerbs = int (length (verbList state))
      in case processFrom env totalVerbs startIndex state w of
           (sg, state1, w1, evs) \<Rightarrow>
             if sg = Normal then
               (case saveState (state1\<lparr> phase := completed \<rparr>) w1 of
                  (state2, w2) \<Rightarrow> (Normal, state2, w2, evs @ [Saved state2]))
             else (sg, state1, w1, evs))"

text \<open>\<open>main\<close>: the phases in turn, each entered when the state is in it.  An error that
  leaves the \<open>try\<close> block is caught: the state is saved and the process exits with code 1.
  Phase 3 only prints.\<close>

definition main ::
  "bool \<Rightarrow> bool \<Rightarrow> nat \<Rightarrow> env \<Rightarrow> world \<Rightarrow> signal \<times> ScraperState \<times> world \<times> event list" where
  "main resume incompleteMode fuel env w =
     (let state = initialState resume w
      in case (if phase state = fetching_verbs then fetchVerbs incompleteMode fuel env state w
               else (Normal, state, w, [])) of
           (sg1, state1, w1, evs1) \<Rightarrow>
             (case sg1 of
                Throw e \<Rightarrow>
                  (case saveState state1 w1 of
                     (state2, w2) \<Rightarrow> (Exit 1, state2, w2, evs1 @ [Saved state2]))
              | Normal \<Rightarrow>
                  (case (if phase state1 = fetching_conjugations
                         then fetchConjugations env state1 w1
                         else (Normal, state1, w1, [])) of
                     (sg2, state2, w2, evs2) \<Rightarrow> (sg2, state2, w2, evs1 @ evs2))
              | _ \<Rightarrow> (sg1, state1, w1, evs1)))"

section \<open>Example data\<close>





section \<open>What is stored for a verb\<close>

text \<open>The slot set of a conjugation row, and the record that the database holds for an
  infinitive: its tenses with their slot sets, in the order of the rows, and its separable
  prefix.\<close>

definition formsOfRow :: "conj_row \<Rightarrow> forms" where
  "formsOfRow c = [Sg1 \<mapsto> c_sg1 c, Sg2 \<mapsto> c_sg2 c, Sg3 \<mapsto> c_sg3 c,
                   Pl1 \<mapsto> c_pl1 c, Pl2 \<mapsto> c_pl2 c, Pl3 \<mapsto> c_pl3 c]"

definition storedTenses :: "database \<Rightarrow> jsstring \<Rightarrow> (jsstring \<times> forms) list" where
  "storedTenses d name =
     concat (map (\<lambda>v. map (\<lambda>c. (c_tense c, formsOfRow c))
                         (filter (\<lambda>c. c_verb_id c = v_id v) (verb_conjugations d)))
               (filter (\<lambda>v. v_infinitive v = name) (verbs d)))"

definition storedPrefixes :: "database \<Rightarrow> jsstring \<Rightarrow> jsstring option list" where
  "storedPrefixes d name =
     map v_separable_prefix (filter (\<lambda>v. v_infinitive v = name) (verbs d))"

text \<open>The foreign key of \<open>verb_conjugations\<close>, which SQLite enforces: every conjugation
  row belongs to a verb.\<close>

definition foreignKeysHold :: "database \<Rightarrow> bool" where
  "foreignKeysHold d \<longleftrightarrow>
     (\<forall>c \<in> set (verb_conjugations d). c_verb_id c \<in> set (map v_id (verbs d)))"

text \<open>The validator as the specification words it: a slot set is complete when all six
  slots are non-empty and not the placeholder, and the accepted tenses are the complete
  ones among all six tenses, in the order present, simple past, present perfect, then the
  optional tenses.\<close>

definition isSlotSetComplete :: "forms \<Rightarrow> bool" where
  "isSlotSetComplete f \<longleftrightarrow>
     (\<forall>sl. \<exists>v. f sl = Some v \<and> v \<noteq> [] \<and> v \<noteq> [8212] \<and> trim v \<noteq> [])"

definition selectAcceptedTenses :: "parsed \<Rightarrow> (jsstring \<times> forms) list" where
  "selectAcceptedTenses pv =
     filter (\<lambda>t. isSlotSetComplete (snd t))
       [(js ''praesens'', praesens pv), (js ''praeteritum'', praeteritum pv),
        (js ''perfekt'', perfekt pv), (js ''plusquamperfekt'', plusquamperfekt pv),
        (js ''futur1'', futur1 pv), (js ''futur2'', futur2 pv)]"

text \<open>A parsed verb all of whose six tenses are complete, and the empty database.\<close>

definition sixForms :: forms where
  "sixForms = [Sg1 \<mapsto> js ''a'', Sg2 \<mapsto> js ''b'', Sg3 \<mapsto> js ''c'',
               Pl1 \<mapsto> js ''d'', Pl2 \<mapsto> js ''e'', Pl3 \<mapsto> js ''f'']"

definition sixTenses :: parsed where
  "sixTenses = \<lparr> separablePrefix = [], infinitive = js ''tun'', praesens = sixForms,
                  praeteritum = sixForms, perfekt = sixForms, plusquamperfekt = sixForms,
                  futur1 = sixForms, futur2 = sixForms \<rparr>"

definition emptyDb :: database where
  "emptyDb = \<lparr> verbs = [], verb_conjugations = [], seq = 0 \<rparr>"

text \<open>The row that \<open>insertConjugation\<close> writes for a slot set that has all six slots.\<close>

definition rowFor :: "nat \<Rightarrow> jsstring \<Rightarrow> forms \<Rightarrow> conj_row" where
  "rowFor i t f =
     \<lparr> c_verb_id = i, c_tense = t, c_sg1 = the (f Sg1), c_sg2 = the (f Sg2),
       c_sg3 = the (f Sg3), c_pl1 = the (f Pl1), c_pl2 = the (f Pl2), c_pl3 = the (f Pl3),
       c_notes = None \<rparr>"

text \<open>The condition under which no separable prefix is detected: the first alternative of
  the present \<open>sg1\<close> slot has no space, or every token after the first one is a reflexive
  pronoun.  A slot set without \<open>sg1\<close> has no first alternative.\<close>

definition noPrefixDetected :: "forms \<Rightarrow> bool" where
  "noPrefixDetected pr \<longleftrightarrow>
     (case pr Sg1 of
        None \<Rightarrow> True
      | Some sg1 \<Rightarrow>
          (let firstForm = trim (hd (splitOn 44 sg1))
           in \<not> includesChar firstForm 32 \<or>
              (\<forall>t \<in> set (drop 1 (splitOn 32 firstForm)). test reflexive t)))"

text \<open>The result of parsing a page without any of the expected markup.\<close>

definition emptyParsed :: parsed where
  "emptyParsed = \<lparr> separablePrefix = [], infinitive = [], praesens = Map.empty,
                   praeteritum = Map.empty, perfekt = Map.empty, plusquamperfekt = Map.empty,
                   futur1 = Map.empty, futur2 = Map.empty \<rparr>"

section \<open>Reading the events of a run\<close>

text \<open>The states written to the state file, in order, and the marks of a run: a title
  taken up by the loop (\<open>Took\<close>, with its index) and a state written (\<open>Kept\<close>, with the
  index it holds).\<close>

fun saved :: "event list \<Rightarrow> ScraperState list" where
  "saved [] = []"
| "saved (Saved st # evs) = st # saved evs"
| "saved (_ # evs) = saved evs"

datatype mark = Took int | Kept int

fun marks :: "event list \<Rightarrow> mark list" where
  "marks [] = []"
| "marks (Skipping i # evs) = Took i # marks evs"
| "marks (Processing i name # evs) = Took i # marks evs"
| "marks (Caught i e # evs) = marks evs"
| "marks (Saved st # evs) = Kept (processedVerbIndex st) # marks evs"

text \<open>The marks of the titles \<open>i\<close> to \<open>j\<close> handled in order, each taken up and then kept.\<close>

definition handled :: "int \<Rightarrow> int \<Rightarrow> mark list" where
  "handled i j = concat (map (\<lambda>k. [Took k, Kept k]) [i..j])"

text \<open>A checkpoint in the processing phase with two titles, the second one with a space;
  a world that holds it; a server that cannot be reached, and one that answers every
  request with status 429.\<close>

definition twoTitles :: ScraperState where
  "twoTitles = \<lparr> phase = fetching_conjugations, verbListContinueToken = None,
                 verbList = [js ''Flexion:gehen'', js ''Flexion:sich freuen''],
                 processedVerbIndex = - 1, lastUpdated = 0 \<rparr>"

definition resumable :: world where
  "resumable = \<lparr> w_net = \<lparr> now = 0, lastRequestTime = 0 \<rparr>, w_calls = 0,
                 w_file = Some (Checkpoint twoTitles), w_db = emptyDb \<rparr>"

definition offline :: env where
  "offline = (\<lambda>n rq. \<lparr> before = 0, late = 0, latency = 0,
                         answer = Rejected (Error (js ''fetch failed'')) \<rparr>)"

definition throttled :: env where
  "throttled = (\<lambda>n rq. \<lparr> before = 0, late = 0, latency = 0,
                  answer = Resolved \<lparr> status = 429, statusText = js ''Too Many Requests'',
                                       json = Inr \<lparr> p_categorymembers = None, p_cmcontinue = None,
                                                    p_text = None, p_wikitext = None \<rparr> \<rparr> \<rparr>)"

section \<open>Sequences of requests\<close>

text \<open>
  A request goes out through \<open>getCategoryMembers\<close> or through \<open>getPageText\<close>, which both
  start with \<open>apiRequest\<close> and so with \<open>waitForRateLimit\<close>.  \<open>fetch\<close> is called right after
  \<open>waitForRateLimit\<close> has set \<open>lastRequestTime\<close>, so the value of \<open>lastRequestTime\<close>
  after a request is the time at which that request was started.  \<open>startTimes\<close> are these
  times for a sequence of requests made one after the other, each answered by its own
  server behaviour.
\<close>

definition issue :: "server \<Rightarrow> request \<Rightarrow> net \<Rightarrow> net" where
  "issue srv rq n =
     (case rq of
        CategoryMembers category resumeToken \<Rightarrow> snd (getCategoryMembers srv category resumeToken n)
      | Parse pageTitle wikitext \<Rightarrow> snd (getPageText srv pageTitle wikitext n))"

fun startTimes :: "(server \<times> request) list \<Rightarrow> net \<Rightarrow> int list" where
  "startTimes [] n = []"
| "startTimes ((srv, rq) # calls) n =
     lastRequestTime (issue srv rq n) # startTimes calls (issue srv rq n)"

text \<open>A server that answers at once with an empty success, and the same when the timer
  of the wait fires with \<open>Date.now()\<close> one millisecond short of the delay.\<close>

definition prompt :: server where
  "prompt = (\<lambda>rq. \<lparr> before = 0, late = 0, latency = 0,
               answer = Resolved \<lparr> status = 200, statusText = js ''OK'',
                                    json = Inr \<lparr> p_categorymembers = None, p_cmcontinue = None,
                                                 p_text = None, p_wikitext = None \<rparr> \<rparr> \<rparr>)"

definition hasty :: server where
  "hasty = (\<lambda>rq. (prompt rq)\<lparr> late := - 1 \<rparr>)"

text \<open>The timers of a sequence of requests are not early.\<close>

definition timersNotEarly :: "(server \<times> request) list \<Rightarrow> bool" where
  "timersNotEarly calls = list_all (\<lambda>(srv, rq). 0 \<le> late (srv rq)) calls"

section \<open>The invariant of the checkpointed state\<close>

text \<open>The invariant of a state: the cursor is below the number of titles, and there is a
  continuation token only in the enumerating phase.  \<open>listStep\<close> relates a checkpoint to
  the next one: the list of titles may only grow at its end while the first is in the
  enumerating phase, and is the same afterwards.\<close>

definition stateInvariant :: "ScraperState \<Rightarrow> bool" where
  "stateInvariant st \<longleftrightarrow>
     processedVerbIndex st < int (length (verbList st)) \<and>
     (verbListContinueToken st \<noteq> None \<longrightarrow> phase st = fetching_verbs)"

definition listStep :: "ScraperState \<Rightarrow> ScraperState \<Rightarrow> bool" where
  "listStep a b \<longleftrightarrow>
     (if phase a = fetching_verbs then prefix (verbList a) (verbList b)
      else verbList b = verbList a)"

text \<open>A checkpoint left by an enumeration that was cut short after its first page, and a
  world that holds it.\<close>

definition onePage :: ScraperState where
  "onePage = \<lparr> phase = fetching_verbs, verbListContinueToken = Some (js ''page|500''),
               verbList = [js ''Flexion:gehen''], processedVerbIndex = - 1, lastUpdated = 0 \<rparr>"

definition interrupted :: world where
  "interrupted = \<lparr> w_net = \<lparr> now = 0, lastRequestTime = 0 \<rparr>, w_calls = 0,
                   w_file = Some (Checkpoint onePage), w_db = emptyDb \<rparr>"

section \<open>The language of a pattern\<close>

text \<open>
  For a pattern without anchors and word boundaries, the strings it can match form a
  language in the usual sense; the matcher is related to it below.  \<open>star A\<close> is the
  iteration of \<open>A\<close>, built from its non-empty members, as a repetition never keeps an
  iteration that consumes nothing.  \<open>binds n r\<close> holds when every match of \<open>r\<close> passes
  through the capture group \<open>n\<close>.
\<close>

inductive_set star :: "jsstring set \<Rightarrow> jsstring set" for A :: "jsstring set" where
  nil: "[] \<in> star A"
| step: "u \<in> A \<Longrightarrow> u \<noteq> [] \<Longrightarrow> v \<in> star A \<Longrightarrow> u @ v \<in> star A"

primrec lang :: "regex \<Rightarrow> jsstring set" where
  "lang Eps = {[]}"
| "lang (Lit c) = {[c]}"
| "lang (Cls P) = {[c] | c. P c}"
| "lang (Seq a b) = {u @ v | u v. u \<in> lang a \<and> v \<in> lang b}"
| "lang (Alt a b) = lang a \<union> lang b"
| "lang (Star g r) = star (lang r)"
| "lang (Grp n r) = lang r"
| "lang Bol = {}"
| "lang Eol = {}"
| "lang WordB = {}"

primrec anchorFree :: "regex \<Rightarrow> bool" where
  "anchorFree Eps = True"
| "anchorFree (Lit c) = True"
| "anchorFree (Cls P) = True"
| "anchorFree (Seq a b) = (anchorFree a \<and> anchorFree b)"
| "anchorFree (Alt a b) = (anchorFree a \<and> anchorFree b)"
| "anchorFree (Star g r) = anchorFree r"
| "anchorFree (Grp n r) = anchorFree r"
| "anchorFree Bol = False"
| "anchorFree Eol = False"
| "anchorFree WordB = False"

primrec binds :: "nat \<Rightarrow> regex \<Rightarrow> bool" where
  "binds n Eps = False"
| "binds n (Lit c) = False"
| "binds n (Cls P) = False"
| "binds n (Seq a b) = (binds n a \<or> binds n b)"
| "binds n (Alt a b) = (binds n a \<and> binds n b)"
| "binds n (Star g r) = False"
| "binds n (Grp m r) = (m = n \<or> binds n r)"
| "binds n Bol = False"
| "binds n Eol = False"
| "binds n WordB = False"

section \<open>The separable prefix as the specification words it\<close>

text \<open>
  A reflexive pronoun token is one of five words, in any case.  The tokens of a form are
  its maximal runs of characters that are not whitespace.  The prefix of a slot value:
  take the first comma-delimited alternative; if it contains a space, the tokens after
  the first one that are not reflexive pronouns, joined by single spaces; otherwise
  nothing.
\<close>

definition isReflexivePronoun :: "jsstring \<Rightarrow> bool" where
  "isReflexivePronoun t \<longleftrightarrow>
     map asciiLower t \<in> {js ''mich'', js ''dich'', js ''sich'', js ''uns'', js ''euch''}"

fun splitWhen :: "(jschar \<Rightarrow> bool) \<Rightarrow> jsstring \<Rightarrow> jsstring list" where
  "splitWhen P [] = [[]]"
| "splitWhen P (x # xs) =
     (if P x then [] # splitWhen P xs
      else (case splitWhen P xs of p # ps \<Rightarrow> (x # p) # ps | [] \<Rightarrow> [[x]]))"

definition wsTokens :: "jsstring \<Rightarrow> jsstring list" where
  "wsTokens s = filter (\<lambda>t. t \<noteq> []) (splitWhen isSpace s)"

definition specSeparablePrefix :: "jsstring \<Rightarrow> jsstring" where
  "specSeparablePrefix sg1 =
     (let firstForm = trim (hd (splitOn 44 sg1))
      in if includesChar firstForm 32
         then joinWith (js '' '') (filter (\<lambda>t. \<not> isReflexivePronoun t) (tl (wsTokens firstForm)))
         else [])"

text \<open>
  The shape of what \<open>extractTextFromCell\<close> returns.  A string is \<open>tidy\<close> when its only
  whitespace is the space character and no whitespace follows whitespace; \<open>collapse\<close> is
  what replacing \<open>/\s+/g\<close> by one space does.
\<close>

fun tidy :: "jsstring \<Rightarrow> bool" where
  "tidy [] = True"
| "tidy [x] = (isSpace x \<longrightarrow> x = 32)"
| "tidy (x # y # s) = ((isSpace x \<longrightarrow> x = 32 \<and> \<not> isSpace y) \<and> tidy (y # s))"

function collapse :: "jsstring \<Rightarrow> jsstring" where
  "collapse [] = []"
| "collapse (c # cs) =
     (if isSpace c then 32 # collapse (dropWhile isSpace cs) else c # collapse cs)"
  by pat_completeness auto
termination
  by (relation "measure length") (auto simp: length_dropWhile_le le_imp_less_Suc)

section \<open>Matching on the rest of the input\<close>

text \<open>
  The matcher reads the input by index.  To run a pattern on a long input the same
  matching is written on the rest of the input: a state holds the index, the character
  before it, the characters from it on and the captures.  \<open>lazyL\<close> and \<open>greedyL\<close> are the
  repetition of a character class, the only repetition in the patterns of the parser
  (\<open>simple\<close>); \<open>execL\<close> tries the start indices in turn.  \<open>at s p cs\<close> is the state of the
  input \<open>s\<close> at index \<open>p\<close>.  That this is the matcher is proved below.
\<close>

type_synonym lstate = "nat \<times> jschar option \<times> jsstring \<times> captures"
type_synonym lcont = "lstate \<Rightarrow> mstate option"

definition wordBefore :: "jschar option \<Rightarrow> bool" where
  "wordBefore b = (case b of None \<Rightarrow> False | Some c \<Rightarrow> isWordChar c)"

definition wordAfter :: "jsstring \<Rightarrow> bool" where
  "wordAfter xs = (case xs of [] \<Rightarrow> False | x # _ \<Rightarrow> isWordChar x)"

fun lazyL :: "(jschar \<Rightarrow> bool) \<Rightarrow> lcont \<Rightarrow> lcont" where
  "lazyL P k (p, b, [], cs) = k (p, b, [], cs)"
| "lazyL P k (p, b, x # xs, cs) =
     (case k (p, b, x # xs, cs) of
        Some r \<Rightarrow> Some r
      | None \<Rightarrow> if P x then lazyL P k (Suc p, Some x, xs, cs) else None)"

fun greedyL :: "(jschar \<Rightarrow> bool) \<Rightarrow> lcont \<Rightarrow> lcont" where
  "greedyL P k (p, b, [], cs) = k (p, b, [], cs)"
| "greedyL P k (p, b, x # xs, cs) =
     (case (if P x then greedyL P k (Suc p, Some x, xs, cs) else None) of
        Some r \<Rightarrow> Some r
      | None \<Rightarrow> k (p, b, x # xs, cs))"

fun matchL :: "regex \<Rightarrow> lcont \<Rightarrow> lcont" where
  "matchL Eps k st = k st"
| "matchL (Lit c) k (p, b, [], cs) = None"
| "matchL (Lit c) k (p, b, x # xs, cs) = (if x = c then k (Suc p, Some x, xs, cs) else None)"
| "matchL (Cls P) k (p, b, [], cs) = None"
| "matchL (Cls P) k (p, b, x # xs, cs) = (if P x then k (Suc p, Some x, xs, cs) else None)"
| "matchL (Seq r1 r2) k st = matchL r1 (matchL r2 k) st"
| "matchL (Alt r1 r2) k st =
     (case matchL r1 k st of Some r \<Rightarrow> Some r | None \<Rightarrow> matchL r2 k st)"
| "matchL (Star g (Cls P)) k st = (if g then greedyL P k st else lazyL P k st)"
| "matchL (Star g r) k st = None"
| "matchL (Grp n r) k (p, b, xs, cs) =
     matchL r (\<lambda>(p', b', xs', cs'). k (p', b', xs', cs'(n \<mapsto> (p, p')))) (p, b, xs, cs)"
| "matchL Bol k (p, b, xs, cs) = (if p = 0 then k (p, b, xs, cs) else None)"
| "matchL Eol k (p, b, xs, cs) = (if xs = [] then k (p, b, xs, cs) else None)"
| "matchL WordB k (p, b, xs, cs) =
     (if wordBefore b \<noteq> wordAfter xs then k (p, b, xs, cs) else None)"

fun execL :: "regex \<Rightarrow> nat \<times> jschar option \<times> jsstring \<Rightarrow> match option" where
  "execL re (p, b, []) =
     (case matchL re (\<lambda>(e, b', xs', cs'). Some (e, cs')) (p, b, [], Map.empty) of
        Some (e, cs) \<Rightarrow> Some (p, e, cs)
      | None \<Rightarrow> None)"
| "execL re (p, b, x # xs) =
     (case matchL re (\<lambda>(e, b', xs', cs'). Some (e, cs')) (p, b, x # xs, Map.empty) of
        Some (e, cs) \<Rightarrow> Some (p, e, cs)
      | None \<Rightarrow> execL re (Suc p, Some x, xs))"
primrec simple :: "regex \<Rightarrow> bool" where
  "simple Eps = True"
| "simple (Lit c) = True"
| "simple (Cls P) = True"
| "simple (Seq a b) = (simple a \<and> simple b)"
| "simple (Alt a b) = (simple a \<and> simple b)"
| "simple (Star g r) = (case r of Cls P \<Rightarrow> True | _ \<Rightarrow> False)"
| "simple (Grp n r) = simple r"
| "simple Bol = True"
| "simple Eol = True"
| "simple WordB = True"

definition prevChar :: "jsstring \<Rightarrow> nat \<Rightarrow> jschar option" where
  "prevChar s p = (if p = 0 then None else Some (s ! (p - 1)))"

definition at :: "jsstring \<Rightarrow> nat \<Rightarrow> captures \<Rightarrow> lstate" where
  "at s p cs = (p, prevChar s p, drop p s, cs)"

section \<open>A page of the verb gehen\<close>

text \<open>
  A page as \<open>parseConjugations\<close> expects it, with the tables of the present, the simple
  past and the present perfect of \<open>gehen\<close>: the head of a table with the label of the tense,
  six rows with the form in the second cell, and the cell that ends the table.  The labels
  are the ones of the patterns.  \<open>flexMatch c\<close> is the part of a row that the row pattern
  matches.  \<open>gehenParsed\<close> is what the parser returns for the page.
\<close>

definition flexHead :: "jsstring \<Rightarrow> jsstring" where
  "flexHead label = js ''<td colspan='' @ 34 # 51 # 34 # js ''><b><a>'' @ label @
                    js ''</a></b>'' @ 10 # js ''</td></tr>'' @ [10]"

definition flexMatch :: "jsstring \<Rightarrow> jsstring" where
  "flexMatch c = js ''<tr>'' @ 10 # js ''<td class=a><small>1</small>'' @ 10 # js ''</td>'' @ 10 #
                 js ''<td>'' @ c @ 10 # js ''</td>''"

definition flexRow :: "jsstring \<Rightarrow> jsstring" where
  "flexRow c = flexMatch c @ js ''</tr>'' @ [10]"

definition flexEnd :: jsstring where
  "flexEnd = js ''<td colspan='' @ 34 # 51 # 34 # js ''><span></span></td></tr>'' @ [10]"

definition gehenCells :: "jsstring list" where
  "gehenCells = [js ''gehe'', js ''gehst'', js ''geht'', js ''gehen'', js ''geht'', js ''gehen'']"

definition gingCells :: "jsstring list" where
  "gingCells = [js ''ging'', js ''gingst'', js ''ging'', js ''gingen'', js ''gingt'', js ''gingen'']"

definition gegangenCells :: "jsstring list" where
  "gegangenCells = [js ''bin gegangen'', js ''bist gegangen'', js ''ist gegangen'',
                    js ''sind gegangen'', js ''seid gegangen'', js ''sind gegangen'']"

definition gehenPage :: jsstring where
  "gehenPage =
     flexHead praesensLabel @ concat (map flexRow gehenCells) @ flexEnd @
     flexHead praeteritumLabel @ concat (map flexRow gingCells) @ flexEnd @
     flexHead (js ''Perfekt'') @ concat (map flexRow gegangenCells) @ flexEnd"

definition formsOf :: "jsstring list \<Rightarrow> forms" where
  "formsOf cells = [Sg1 \<mapsto> cells ! 0, Sg2 \<mapsto> cells ! 1, Sg3 \<mapsto> cells ! 2,
                    Pl1 \<mapsto> cells ! 3, Pl2 \<mapsto> cells ! 4, Pl3 \<mapsto> cells ! 5]"

definition gehenParsed :: parsed where
  "gehenParsed = \<lparr> separablePrefix = [], infinitive = [], praesens = formsOf gehenCells,
                    praeteritum = formsOf gingCells, perfekt = formsOf gegangenCells,
                    plusquamperfekt = Map.empty, futur1 = Map.empty, futur2 = Map.empty \<rparr>"

section \<open>Replacing a stored verb\<close>

lemma v_id_less_nextId: "r \<in> set (verbs d) \<Longrightarrow> v_id r < nextId d"
proof -
  assume "r \<in> set (verbs d)"
  then have "v_id r \<in> set (0 # map v_id (verbs d))" by simp
  then have "v_id r \<le> Max (set (0 # map v_id (verbs d)))" by (rule Max_ge[OF finite_set])
  then show ?thesis by (simp add: nextId_def)
qed



section \<open>Acceptance and what is written\<close>

lemma slot_cases: "(\<forall>sl. P sl) \<longleftrightarrow> P Sg1 \<and> P Sg2 \<and> P Sg3 \<and> P Pl1 \<and> P Pl2 \<and> P Pl3"
  by (metis slot.exhaust)

lemma hasAllForms_iff: "hasAllForms f \<longleftrightarrow> isSlotSetComplete f"
  unfolding isSlotSetComplete_def slot_cases
  by (auto simp: hasAllForms_def requiredForms_def split: option.splits)

lemma hasAllForms_formsOfRow:
  assumes "hasAllForms f"
  shows "formsOfRow \<lparr> c_verb_id = i, c_tense = t, c_sg1 = the (f Sg1), c_sg2 = the (f Sg2),
            c_sg3 = the (f Sg3), c_pl1 = the (f Pl1), c_pl2 = the (f Pl2), c_pl3 = the (f Pl3),
            c_notes = None \<rparr> = f"
proof
  fix sl
  from assms have "\<forall>sl. \<exists>v. f sl = Some v"
    unfolding hasAllForms_iff isSlotSetComplete_def by blast
  then show "formsOfRow \<lparr> c_verb_id = i, c_tense = t, c_sg1 = the (f Sg1), c_sg2 = the (f Sg2),
            c_sg3 = the (f Sg3), c_pl1 = the (f Pl1), c_pl2 = the (f Pl2), c_pl3 = the (f Pl3),
            c_notes = None \<rparr> sl = f sl"
    by (cases sl) (auto simp: formsOfRow_def slot_cases)
qed

lemma insertConjugation_ok:
  assumes "hasAllForms f" and "i \<in> set (map v_id (verbs d))"
  shows "insertConjugation d i t f =
           Inr (d\<lparr> verb_conjugations :=
                  filter (\<lambda>c. \<not> (c_verb_id c = i \<and> c_tense c = t)) (verb_conjugations d) @
                  [rowFor i t f] \<rparr>)"
proof -
  from assms(1) have "\<forall>sl. \<exists>v. f sl = Some v"
    unfolding hasAllForms_iff isSlotSetComplete_def by blast
  then obtain f1 f2 f3 f4 f5 f6 where
    "f Sg1 = Some f1" "f Sg2 = Some f2" "f Sg3 = Some f3"
    "f Pl1 = Some f4" "f Pl2 = Some f5" "f Pl3 = Some f6"
    unfolding slot_cases by blast
  with assms(2) show ?thesis
    by (simp add: insertConjugation_def rowFor_def)
qed


lemma validTenses_all:
  assumes "hasAllForms (praesens pv)" "hasAllForms (praeteritum pv)" "hasAllForms (perfekt pv)"
  shows "validTenses pv =
    [(js ''praesens'', praesens pv, js ''Pr'' @ 228 # js ''sens''),
     (js ''praeteritum'', praeteritum pv, js ''Pr'' @ 228 # js ''teritum''),
     (js ''perfekt'', perfekt pv, js ''Perfekt'')]"
  using assms by (simp add: validTenses_def)

lemma validTenses_short:
  assumes "\<not> (hasAllForms (praesens pv) \<and> hasAllForms (praeteritum pv) \<and> hasAllForms (perfekt pv))"
  shows "length (validTenses pv) < 3"
  using assms by (auto simp: validTenses_def)

lemma tense_names_distinct:
  "js ''praesens'' \<noteq> js ''praeteritum''" "js ''praesens'' \<noteq> js ''perfekt''"
  "js ''praeteritum'' \<noteq> js ''perfekt''"
  by (simp_all add: js_def)

lemma insertConjugation_fresh:
  assumes "hasAllForms f" and "i \<in> set (map v_id (verbs d))"
    and "\<forall>c \<in> set (verb_conjugations d). \<not> (c_verb_id c = i \<and> c_tense c = t)"
  shows "insertConjugation d i t f =
           Inr (d\<lparr> verb_conjugations := verb_conjugations d @ [rowFor i t f] \<rparr>)"
proof -
  from assms(3) have "filter (\<lambda>c. \<not> (c_verb_id c = i \<and> c_tense c = t)) (verb_conjugations d)
                        = verb_conjugations d"
    by (intro filter_True) blast
  then show ?thesis
    unfolding insertConjugation_ok[OF assms(1,2)] by simp
qed

lemma insertConjugations_three:
  assumes c: "hasAllForms (praesens pv)" "hasAllForms (praeteritum pv)" "hasAllForms (perfekt pv)"
    and i: "i \<in> set (map v_id (verbs d))"
    and fresh: "\<forall>c \<in> set (verb_conjugations d). c_verb_id c \<noteq> i"
  shows "insertConjugations d i (validTenses pv) =
           (None, d\<lparr> verb_conjugations := verb_conjugations d @
               [rowFor i (js ''praesens'') (praesens pv),
                rowFor i (js ''praeteritum'') (praeteritum pv),
                rowFor i (js ''perfekt'') (perfekt pv)] \<rparr>)"
proof -
  let ?r1 = "rowFor i (js ''praesens'') (praesens pv)"
  let ?r2 = "rowFor i (js ''praeteritum'') (praeteritum pv)"
  let ?r3 = "rowFor i (js ''perfekt'') (perfekt pv)"
  let ?d1 = "d\<lparr> verb_conjugations := verb_conjugations d @ [?r1] \<rparr>"
  let ?d2 = "?d1\<lparr> verb_conjugations := verb_conjugations ?d1 @ [?r2] \<rparr>"
  let ?d3 = "?d2\<lparr> verb_conjugations := verb_conjugations ?d2 @ [?r3] \<rparr>"
  have s1: "insertConjugation d i (js ''praesens'') (praesens pv) = Inr ?d1"
    using fresh by (intro insertConjugation_fresh[OF c(1) i]) blast
  have i1: "i \<in> set (map v_id (verbs ?d1))" using i by simp
  have f1: "\<forall>c \<in> set (verb_conjugations ?d1). \<not> (c_verb_id c = i \<and> c_tense c = js ''praeteritum'')"
    using fresh tense_names_distinct by (auto simp: rowFor_def)
  have s2: "insertConjugation ?d1 i (js ''praeteritum'') (praeteritum pv) = Inr ?d2"
    by (rule insertConjugation_fresh[OF c(2) i1 f1])
  have i2: "i \<in> set (map v_id (verbs ?d2))" using i by simp
  have f2: "\<forall>c \<in> set (verb_conjugations ?d2). \<not> (c_verb_id c = i \<and> c_tense c = js ''perfekt'')"
    using fresh tense_names_distinct by (auto simp: rowFor_def)
  have s3: "insertConjugation ?d2 i (js ''perfekt'') (perfekt pv) = Inr ?d3"
    by (rule insertConjugation_fresh[OF c(3) i2 f2])
  have "insertConjugations d i (validTenses pv) = (None, ?d3)"
    unfolding validTenses_all[OF c] by (simp only: insertConjugations.simps s1 s2 s3 sum.case)
  then show ?thesis by simp
qed

lemma storeVerb_accepts:
  assumes fk: "foreignKeysHold d"
    and c: "hasAllForms (praesens pv)" "hasAllForms (praeteritum pv)" "hasAllForms (perfekt pv)"
  shows "\<exists>d'. storeVerb d name pv = (Written, d') \<and>
           storedTenses d' name =
             [(js ''praesens'', praesens pv), (js ''praeteritum'', praeteritum pv),
              (js ''perfekt'', perfekt pv)] \<and>
           storedPrefixes d' name = [Some (separablePrefix pv)]"
proof -
  define new where "new = nextId d"
  define kept where "kept = filter (\<lambda>c. c_verb_id c \<notin> set (map v_id (filter (\<lambda>r. v_infinitive r = name) (verbs d))))
                 (verb_conjugations d)"
  define row where "row = \<lparr> v_id = new, v_infinitive = name,
     v_separable_prefix = Some (separablePrefix pv), v_is_irregular = 1, v_usage_popularity = 0 \<rparr>"
  define others where "others = filter (\<lambda>r. v_infinitive r \<noteq> name) (verbs d)"
  define d1 where "d1 = d\<lparr> verbs := others @ [row], verb_conjugations := kept, seq := new \<rparr>"
  have iv: "insertVerb d (verbArgs name pv) = Inr (d1, new)"
    by (simp add: insertVerb_def replaceIntoVerbs_def Let_def kept_def others_def d1_def row_def
        new_def verbArgs_def)
  have old: "\<forall>c \<in> set (verb_conjugations d1). c_verb_id c \<noteq> new"
  proof
    fix c assume "c \<in> set (verb_conjugations d1)"
    then have "c \<in> set (verb_conjugations d)" by (simp add: kept_def d1_def)
    with fk obtain r where "r \<in> set (verbs d)" "v_id r = c_verb_id c"
      unfolding foreignKeysHold_def by auto
    with v_id_less_nextId[of r d] show "c_verb_id c \<noteq> new" by (simp add: new_def)
  qed
  have mem: "new \<in> set (map v_id (verbs d1))"
    by (simp add: d1_def row_def)
  define r1 where "r1 = rowFor new (js ''praesens'') (praesens pv)"
  define r2 where "r2 = rowFor new (js ''praeteritum'') (praeteritum pv)"
  define r3 where "r3 = rowFor new (js ''perfekt'') (perfekt pv)"
  define d2 where "d2 = d1\<lparr> verb_conjugations := verb_conjugations d1 @ [r1, r2, r3] \<rparr>"
  have ic: "insertConjugations d1 new (validTenses pv) = (None, d2)"
    unfolding d2_def r1_def r2_def r3_def by (rule insertConjugations_three[OF c mem old])
  have len: "\<not> length (validTenses pv) < 3"
    by (simp add: validTenses_all[OF c])
  have sv: "storeVerb d name pv = (Written, d2)"
    by (simp add: storeVerb_def Let_def len iv ic)
  have fr: "formsOfRow r1 = praesens pv" "formsOfRow r2 = praeteritum pv"
    "formsOfRow r3 = perfekt pv"
    unfolding rowFor_def r1_def r2_def r3_def by (rule hasAllForms_formsOfRow, rule c)+
  from old have none: "filter (\<lambda>c. c_verb_id c = new) kept = []"
    by (intro filter_False) (simp add: d1_def)
  have cid: "c_verb_id r1 = new" "c_verb_id r2 = new" "c_verb_id r3 = new"
    "c_tense r1 = js ''praesens''" "c_tense r2 = js ''praeteritum''" "c_tense r3 = js ''perfekt''"
    by (simp_all add: rowFor_def r1_def r2_def r3_def)
  have fo: "filter (\<lambda>v. v_infinitive v = name) others = []"
    unfolding others_def by (intro filter_False) simp
  have rw: "v_infinitive row = name" "v_id row = new"
    "v_separable_prefix row = Some (separablePrefix pv)"
    by (simp_all add: row_def)
  have st: "storedTenses d2 name =
             [(js ''praesens'', praesens pv), (js ''praeteritum'', praeteritum pv),
              (js ''perfekt'', perfekt pv)]"
    by (simp add: storedTenses_def d2_def d1_def none fr cid fo rw)
  have sp: "storedPrefixes d2 name = [Some (separablePrefix pv)]"
    by (simp add: storedPrefixes_def d2_def d1_def fo rw)
  from sv st sp show ?thesis by blast
qed

lemma storeVerb_rejects:
  assumes "\<not> (hasAllForms (praesens pv) \<and> hasAllForms (praeteritum pv) \<and> hasAllForms (perfekt pv))"
  shows "storeVerb d name pv = (Incomplete (length (validTenses pv)), d)"
  using validTenses_short[OF assms] by (simp add: storeVerb_def Let_def)

lemma foreignKeysHold_emptyDb: "foreignKeysHold emptyDb"
  by (simp add: foreignKeysHold_def emptyDb_def)

lemma hasAllForms_sixForms: "hasAllForms sixForms"
  by (simp add: hasAllForms_def requiredForms_def sixForms_def js_def trim_def isSpace_def)

text \<open>
  Claim C4, as amended.  A tense is complete exactly when each of its six slots is
  non-empty and not the placeholder.  The verb is written exactly when the present, the
  simple past and the present perfect are complete, and then the record stored for it
  holds these three tenses with the parsed slot sets and nothing else: the optional
  tenses are not examined and never written.  A rejected verb leaves the database as it
  was.
\<close>

theorem storeVerb_writes_required_trio:
  assumes "foreignKeysHold d"
  shows "(hasAllForms f \<longleftrightarrow> isSlotSetComplete f) \<and>
         (if hasAllForms (praesens pv) \<and> hasAllForms (praeteritum pv) \<and> hasAllForms (perfekt pv)
          then \<exists>d'. storeVerb d name pv = (Written, d') \<and>
                 storedTenses d' name =
                   [(js ''praesens'', praesens pv), (js ''praeteritum'', praeteritum pv),
                    (js ''perfekt'', perfekt pv)] \<and>
                 storedPrefixes d' name = [Some (separablePrefix pv)]
          else storeVerb d name pv = (Incomplete (length (validTenses pv)), d))"
  using storeVerb_accepts[OF assms, of pv name] storeVerb_rejects[of pv d name]
    hasAllForms_iff[of f]
  by (simp del: not_None_eq split: if_splits)

theorem storeVerb_writes_required_trio_witness:
  "foreignKeysHold emptyDb \<and>
   (\<exists>d'. storeVerb emptyDb (js ''tun'') sixTenses = (Written, d') \<and>
      storedTenses d' (js ''tun'') =
        [(js ''praesens'', sixForms), (js ''praeteritum'', sixForms), (js ''perfekt'', sixForms)])"
proof -
  have c: "hasAllForms (praesens sixTenses) \<and> hasAllForms (praeteritum sixTenses) \<and>
           hasAllForms (perfekt sixTenses)"
    by (simp add: sixTenses_def hasAllForms_sixForms)
  from storeVerb_writes_required_trio[OF foreignKeysHold_emptyDb, of "sixForms" sixTenses "js ''tun''"] c
  have "\<exists>d'. storeVerb emptyDb (js ''tun'') sixTenses = (Written, d') \<and>
          storedTenses d' (js ''tun'') =
            [(js ''praesens'', praesens sixTenses), (js ''praeteritum'', praeteritum sixTenses),
             (js ''perfekt'', perfekt sixTenses)] \<and>
          storedPrefixes d' (js ''tun'') = [Some (separablePrefix sixTenses)]"
    by simp
  then show ?thesis
    using foreignKeysHold_emptyDb by (auto simp: sixTenses_def)
qed

text \<open>The claim as it was stated fails where an optional tense is complete: all six
  tenses of \<open>sixTenses\<close> pass the check, and three are stored.\<close>

theorem storeVerb_optional_tenses_counterexample:
  "map fst (storedTenses (snd (storeVerb emptyDb (js ''tun'') sixTenses)) (js ''tun'')) =
     [js ''praesens'', js ''praeteritum'', js ''perfekt''] \<and>
   map fst (selectAcceptedTenses sixTenses) =
     [js ''praesens'', js ''praeteritum'', js ''perfekt'', js ''plusquamperfekt'',
      js ''futur1'', js ''futur2''] \<and>
   storedTenses (snd (storeVerb emptyDb (js ''tun'') sixTenses)) (js ''tun'') \<noteq>
     selectAcceptedTenses sixTenses"
proof -
  have c: "hasAllForms (praesens sixTenses)" "hasAllForms (praeteritum sixTenses)"
    "hasAllForms (perfekt sixTenses)"
    by (simp_all add: sixTenses_def hasAllForms_sixForms)
  from storeVerb_accepts[OF foreignKeysHold_emptyDb c, of "js ''tun''"]
  have a: "map fst (storedTenses (snd (storeVerb emptyDb (js ''tun'') sixTenses)) (js ''tun'')) =
     [js ''praesens'', js ''praeteritum'', js ''perfekt'']"
    by auto
  have s: "isSlotSetComplete sixForms"
    using hasAllForms_sixForms by (simp add: hasAllForms_iff)
  have b: "map fst (selectAcceptedTenses sixTenses) =
     [js ''praesens'', js ''praeteritum'', js ''perfekt'', js ''plusquamperfekt'',
      js ''futur1'', js ''futur2'']"
    by (simp add: selectAcceptedTenses_def sixTenses_def s)
  from a b have "map fst (storedTenses (snd (storeVerb emptyDb (js ''tun'') sixTenses)) (js ''tun''))
           \<noteq> map fst (selectAcceptedTenses sixTenses)"
    by simp
  then have "storedTenses (snd (storeVerb emptyDb (js ''tun'') sixTenses)) (js ''tun'') \<noteq>
     selectAcceptedTenses sixTenses"
    by metis
  with a b show ?thesis by blast
qed

section \<open>The separable prefix that is stored\<close>

lemma thenE_Inr: "thenE r f = Inr y \<longleftrightarrow> (\<exists>x. r = Inr x \<and> f x = Inr y)"
  by (cases r) (simp_all add: thenE_def)

lemma parseConjugations_Some:
  assumes "parseConjugations raw = Inr (Some pv)"
  shows "\<exists>t. raw = Some t \<and> t \<noteq> [] \<and>
           parseInfinitive t = Inr (infinitive pv) \<and>
           parseSection t (sectionRe praesensLabel nextSpan) = Inr (praesens pv) \<and>
           parseSection t (sectionRe praeteritumLabel nextSpan) = Inr (praeteritum pv) \<and>
           parseSection t (sectionRe (js ''Perfekt'') nextSpan) = Inr (perfekt pv) \<and>
           parseSection t (sectionRe (js ''Plusquamperfekt'') tableEnd) = Inr (plusquamperfekt pv) \<and>
           parseSection t (sectionRe (js ''Futur I'') nextSpan) = Inr (futur1 pv) \<and>
           parseSection t (sectionRe (js ''Futur II'') tableEnd) = Inr (futur2 pv) \<and>
           detectSeparablePrefix (praesens pv) = Inr (separablePrefix pv)"
proof (cases raw)
  case None
  with assms show ?thesis by (simp add: parseConjugations_def)
next
  case (Some t)
  with assms have ne: "t \<noteq> []"
    by (auto simp: parseConjugations_def split: if_splits)
  from assms Some ne show ?thesis
    unfolding parseConjugations_def
    by (simp add: thenE_Inr) force
qed

lemma splitOn_nonempty: "splitOn c s \<noteq> []"
  by (induction s) (auto split: list.splits)

lemma detect_none:
  assumes "detectSeparablePrefix pr = Inr sp" and "noPrefixDetected pr"
  shows "sp = []"
proof (cases "pr Sg1")
  case None
  with assms(1) show ?thesis by (simp add: detectSeparablePrefix_def)
next
  case (Some sg1)
  obtain first rest where sp: "splitOn 44 sg1 = first # rest"
    using splitOn_nonempty[of 44 sg1] by (cases "splitOn 44 sg1") auto
  from assms(2) Some sp have
    c: "\<not> includesChar (trim first) 32 \<or>
        (\<forall>t \<in> set (drop 1 (splitOn 32 (trim first))). test reflexive t)"
    by (simp add: noPrefixDetected_def Let_def)
  then have "includesChar (trim first) 32 \<Longrightarrow>
      filter (\<lambda>p. \<not> test reflexive p) (drop 1 (splitOn 32 (trim first))) = []"
    by (intro filter_False) simp
  with assms(1) Some sp show ?thesis
    by (auto simp: detectSeparablePrefix_def Let_def split: if_splits)
qed

lemma insertConjugation_verbs: "insertConjugation d i t f = Inr d' \<Longrightarrow> verbs d' = verbs d"
  by (auto simp: insertConjugation_def split: option.splits if_splits)

lemma insertConjugations_verbs: "insertConjugations d i ts = (r, d') \<Longrightarrow> verbs d' = verbs d"
proof (induction d i ts rule: insertConjugations.induct)
  case (1 d verbId)
  then show ?case by simp
next
  case (2 d verbId tense forms label rest)
  then show ?case
    by (auto split: sum.splits dest: insertConjugation_verbs)
qed

lemma storeVerb_prefix:
  assumes "storeVerb d name pv = (Written, d')"
  shows "storedPrefixes d' name = [Some (separablePrefix pv)]"
proof -
  define d1 where "d1 = fst (replaceIntoVerbs d name (Some (separablePrefix pv)) 1 0)"
  define new where "new = nextId d"
  have iv: "insertVerb d (verbArgs name pv) = Inr (d1, new)"
    by (simp add: insertVerb_def replaceIntoVerbs_def Let_def d1_def new_def verbArgs_def)
  from assms have "\<exists>r. insertConjugations d1 new (validTenses pv) = (r, d')"
    by (auto simp: storeVerb_def Let_def iv split: if_splits prod.splits option.splits)
  then have "verbs d' = verbs d1"
    by (auto dest: insertConjugations_verbs)
  moreover have "filter (\<lambda>v. v_infinitive v = name) (filter (\<lambda>r. v_infinitive r \<noteq> name) (verbs d)) = []"
    by (intro filter_False) simp
  ultimately show ?thesis
    by (simp add: storedPrefixes_def d1_def replaceIntoVerbs_def Let_def)
qed

lemmas section_defs = sectionRe_def colspanRe_def nextSpan_def tableEnd_def h2Re_def str_def
  plusRe_def notChar_def dotAll_def dot_def praesensLabel_def praeteritumLabel_def

lemma no_section_in_x: "matchRe (js ''x'') (sectionRe l e) = None"
  by (simp add: matchRe_def execFrom_def matchAt_def section_defs js_def)

lemma no_heading_in_x: "matchRe (js ''x'') h2Re = None"
  by (simp add: matchRe_def execFrom_def matchAt_def section_defs js_def)

lemma parseConjugations_x: "parseConjugations (Some (js ''x'')) = Inr (Some emptyParsed)"
  by (simp add: parseConjugations_def parseInfinitive_def parseSection_def no_section_in_x
      no_heading_in_x thenE_def detectSeparablePrefix_def emptyParsed_def) (simp add: js_def)

section \<open>The processing loop\<close>

lemma saved_append: "saved (xs @ ys) = saved xs @ saved ys"
  by (induction xs rule: saved.induct) auto

lemma marks_append: "marks (xs @ ys) = marks xs @ marks ys"
  by (induction xs rule: marks.induct) auto

lemma checkpointAt_eq:
  "checkpointAt j st w =
     (st\<lparr> processedVerbIndex := j, lastUpdated := now (w_net w) \<rparr>,
      w\<lparr> w_file := Some (Checkpoint (st\<lparr> processedVerbIndex := j, lastUpdated := now (w_net w) \<rparr>)) \<rparr>)"
  by (simp add: checkpointAt_def saveState_def Let_def)

lemma handleTitle_result:
  assumes "handleTitle env i st w = (sg, st', w', evs)"
  shows "w_file w' = Some (Checkpoint st') \<and> verbList st' = verbList st \<and>
         phase st' = phase st \<and> verbListContinueToken st' = verbListContinueToken st \<and>
         saved evs = [st'] \<and>
         ((sg = Normal \<and> processedVerbIndex st' = i \<and> marks evs = [Took i, Kept i] \<and>
             (\<forall>j e. Caught j e \<in> set evs \<longrightarrow> j = i \<and> \<not> isRateLimit e)) \<or>
          (sg = Exit 1 \<and> processedVerbIndex st' = i - 1 \<and>
             (\<exists>name e. evs = [Processing i name, Caught i e, Saved st'] \<and> isRateLimit e \<and>
                extractInfinitiveFromTitle (titleAt (verbList st) i) = Some name \<and>
                \<not> includesChar name 32)))"
  using assms
  unfolding handleTitle_def Let_def checkpointAt_eq
  by (auto split: option.splits if_splits prod.splits title_result.splits)


declare processFrom.simps [simp del]

lemma processFrom_done: "\<not> i < n \<Longrightarrow> processFrom env n i st w = (Normal, st, w, [])"
  by (simp add: processFrom.simps)

lemma processFrom_step:
  assumes "i < n" and "handleTitle env i st w = (sg, st1, w1, evs)"
  shows "processFrom env n i st w =
           (if sg = Normal then
              (case processFrom env n (i + 1) st1 w1 of
                 (sg2, st2, w2, evs2) \<Rightarrow> (sg2, st2, w2, evs @ evs2))
            else (sg, st1, w1, evs))"
  using assms by (simp add: processFrom.simps[of env n i st w])

lemma processFrom_frame:
  "processFrom env n i st w = (sg, st', w', evs) \<Longrightarrow>
     verbList st' = verbList st \<and> phase st' = phase st \<and>
     verbListContinueToken st' = verbListContinueToken st \<and> (sg = Normal \<or> sg = Exit 1)"
proof (induction env n i st w arbitrary: sg st' w' evs rule: processFrom.induct)
  case (1 env n i st w)
  show ?case
  proof (cases "i < n")
    case False
    with "1.prems" show ?thesis by (simp add: processFrom_done)
  next
    case True
    obtain sg1 st1 w1 evs1 where h: "handleTitle env i st w = (sg1, st1, w1, evs1)"
      by (metis prod_cases4)
    note r = handleTitle_result[OF h]
    show ?thesis
    proof (cases "sg1 = Normal")
      case False
      with "1.prems" True h r show ?thesis
        by (auto simp: processFrom_step[OF True h])
    next
      case n: True
      obtain sg2 st2 w2 evs2 where p: "processFrom env n (i + 1) st1 w1 = (sg2, st2, w2, evs2)"
        by (metis prod_cases4)
      from "1.IH"[OF True h[symmetric] refl refl n p] r
      have "verbList st2 = verbList st \<and> phase st2 = phase st \<and>
            verbListContinueToken st2 = verbListContinueToken st \<and> (sg2 = Normal \<or> sg2 = Exit 1)"
        by simp
      with "1.prems" True h n p show ?thesis
        by (simp add: processFrom_step[OF True h])
    qed
  qed
qed


lemma handled_empty: "j < i \<Longrightarrow> handled i j = []"
  by (simp add: handled_def)

lemma handled_first: "i \<le> j \<Longrightarrow> handled i j = Took i # Kept i # handled (i + 1) j"
  by (simp add: handled_def upto_rec1)

lemma processFrom_trace:
  "processFrom env n i st w = (sg, st', w', evs) \<Longrightarrow>
     (sg = Normal \<longrightarrow>
        marks evs = handled i (n - 1) \<and>
        (\<forall>j e. Caught j e \<in> set evs \<longrightarrow> \<not> isRateLimit e) \<and>
        (i < n \<longrightarrow> processedVerbIndex st' = n - 1 \<and> w_file w' = Some (Checkpoint st'))) \<and>
     (sg \<noteq> Normal \<longrightarrow>
        (\<exists>j name e pre. i \<le> j \<and> j < n \<and>
           marks evs = handled i (j - 1) @ [Took j, Kept (j - 1)] \<and>
           processedVerbIndex st' = j - 1 \<and> w_file w' = Some (Checkpoint st') \<and>
           isRateLimit e \<and> evs = pre @ [Processing j name, Caught j e, Saved st'] \<and>
           (\<forall>j' e'. Caught j' e' \<in> set pre \<longrightarrow> \<not> isRateLimit e') \<and>
           extractInfinitiveFromTitle (titleAt (verbList st) j) = Some name \<and>
           \<not> includesChar name 32))"
proof (induction env n i st w arbitrary: sg st' w' evs rule: processFrom.induct)
  case (1 env n i st w)
  show ?case
  proof (cases "i < n")
    case False
    with "1.prems" show ?thesis by (simp add: processFrom_done handled_empty)
  next
    case True
    obtain sg1 st1 w1 evs1 where h: "handleTitle env i st w = (sg1, st1, w1, evs1)"
      by (metis prod_cases4)
    note r = handleTitle_result[OF h]
    show ?thesis
    proof (cases "sg1 = Normal")
      case False
      with "1.prems" True h have eq: "sg = sg1" "st' = st1" "w' = w1" "evs = evs1"
        by (simp_all add: processFrom_step[OF True h])
      from False r obtain name e where
        x: "sg1 = Exit 1" "processedVerbIndex st1 = i - 1"
           "evs1 = [Processing i name, Caught i e, Saved st1]" "isRateLimit e"
           "extractInfinitiveFromTitle (titleAt (verbList st) i) = Some name"
           "\<not> includesChar name 32" "w_file w1 = Some (Checkpoint st1)"
        by auto
      have "i \<le> i \<and> i < n \<and>
           marks evs = handled i (i - 1) @ [Took i, Kept (i - 1)] \<and>
           processedVerbIndex st' = i - 1 \<and> w_file w' = Some (Checkpoint st') \<and>
           isRateLimit e \<and> evs = [] @ [Processing i name, Caught i e, Saved st'] \<and>
           (\<forall>j' e'. Caught j' e' \<in> set [] \<longrightarrow> \<not> isRateLimit e') \<and>
           extractInfinitiveFromTitle (titleAt (verbList st) i) = Some name \<and>
           \<not> includesChar name 32"
        using x eq True by (simp add: handled_empty)
      then have "\<exists>j name e pre. i \<le> j \<and> j < n \<and>
           marks evs = handled i (j - 1) @ [Took j, Kept (j - 1)] \<and>
           processedVerbIndex st' = j - 1 \<and> w_file w' = Some (Checkpoint st') \<and>
           isRateLimit e \<and> evs = pre @ [Processing j name, Caught j e, Saved st'] \<and>
           (\<forall>j' e'. Caught j' e' \<in> set pre \<longrightarrow> \<not> isRateLimit e') \<and>
           extractInfinitiveFromTitle (titleAt (verbList st) j) = Some name \<and>
           \<not> includesChar name 32"
        by blast
      with eq x(1) show ?thesis by simp
    next
      case n: True
      obtain sg2 st2 w2 evs2 where p: "processFrom env n (i + 1) st1 w1 = (sg2, st2, w2, evs2)"
        by (metis prod_cases4)
      from "1.prems" True h n p have eq: "sg = sg2" "st' = st2" "w' = w2" "evs = evs1 @ evs2"
        by (simp_all add: processFrom_step[OF True h])
      note ih = "1.IH"[OF True h[symmetric] refl refl n p]
      from r n have r1: "processedVerbIndex st1 = i" "marks evs1 = [Took i, Kept i]"
        "\<forall>j e. Caught j e \<in> set evs1 \<longrightarrow> \<not> isRateLimit e" "w_file w1 = Some (Checkpoint st1)"
        "verbList st1 = verbList st"
        by auto
      show ?thesis
      proof (cases "sg2 = Normal")
        case True
        with ih have a: "marks evs2 = handled (i + 1) (n - 1)"
          "\<forall>j e. Caught j e \<in> set evs2 \<longrightarrow> \<not> isRateLimit e"
          "i + 1 < n \<longrightarrow> processedVerbIndex st2 = n - 1 \<and> w_file w2 = Some (Checkpoint st2)"
          by auto
        have last: "processedVerbIndex st2 = n - 1 \<and> w_file w2 = Some (Checkpoint st2)"
        proof (cases "i + 1 < n")
          case True
          with a(3) show ?thesis by simp
        next
          case False
          with p have "st2 = st1" "w2 = w1" by (simp_all add: processFrom_done)
          with r1 False \<open>i < n\<close> show ?thesis by simp
        qed
        from \<open>i < n\<close> have "handled i (n - 1) = Took i # Kept i # handled (i + 1) (n - 1)"
          by (intro handled_first) simp
        with a r1 last eq True show ?thesis
          by (auto simp: marks_append)
      next
        case False
        with ih obtain j name e pre where
          b: "i + 1 \<le> j" "j < n"
             "marks evs2 = handled (i + 1) (j - 1) @ [Took j, Kept (j - 1)]"
             "processedVerbIndex st2 = j - 1" "w_file w2 = Some (Checkpoint st2)"
             "isRateLimit e" "evs2 = pre @ [Processing j name, Caught j e, Saved st2]"
             "\<forall>j' e'. Caught j' e' \<in> set pre \<longrightarrow> \<not> isRateLimit e'"
             "extractInfinitiveFromTitle (titleAt (verbList st1) j) = Some name"
             "\<not> includesChar name 32"
          by blast
        from b(1) have hf: "handled i (j - 1) = Took i # Kept i # handled (i + 1) (j - 1)"
          by (intro handled_first) simp
        have "i \<le> j \<and> j < n \<and>
           marks evs = handled i (j - 1) @ [Took j, Kept (j - 1)] \<and>
           processedVerbIndex st' = j - 1 \<and> w_file w' = Some (Checkpoint st') \<and>
           isRateLimit e \<and> evs = (evs1 @ pre) @ [Processing j name, Caught j e, Saved st'] \<and>
           (\<forall>j' e'. Caught j' e' \<in> set (evs1 @ pre) \<longrightarrow> \<not> isRateLimit e') \<and>
           extractInfinitiveFromTitle (titleAt (verbList st) j) = Some name \<and>
           \<not> includesChar name 32"
          using b r1 eq hf by (auto simp: marks_append)
        then have "\<exists>j name e pre. i \<le> j \<and> j < n \<and>
           marks evs = handled i (j - 1) @ [Took j, Kept (j - 1)] \<and>
           processedVerbIndex st' = j - 1 \<and> w_file w' = Some (Checkpoint st') \<and>
           isRateLimit e \<and> evs = pre @ [Processing j name, Caught j e, Saved st'] \<and>
           (\<forall>j' e'. Caught j' e' \<in> set pre \<longrightarrow> \<not> isRateLimit e') \<and>
           extractInfinitiveFromTitle (titleAt (verbList st) j) = Some name \<and>
           \<not> includesChar name 32"
          by blast
        with False eq show ?thesis by simp
      qed
    qed
  qed
qed

lemma Took_handled: "Took m \<in> set (handled i j) \<longleftrightarrow> i \<le> m \<and> m \<le> j"
  by (auto simp: handled_def)

lemma fetchConjugations_eq:
  assumes "processFrom env (int (length (verbList st))) (processedVerbIndex st + 1) st w = (sg, st1, w1, evs)"
  shows "fetchConjugations env st w =
           (if sg = Normal then
              (Normal, st1\<lparr> phase := completed, lastUpdated := now (w_net w1) \<rparr>,
               w1\<lparr> w_file := Some (Checkpoint
                       (st1\<lparr> phase := completed, lastUpdated := now (w_net w1) \<rparr>)) \<rparr>,
               evs @ [Saved (st1\<lparr> phase := completed, lastUpdated := now (w_net w1) \<rparr>)])
            else (sg, st1, w1, evs))"
  using assms by (simp add: fetchConjugations_def Let_def saveState_def)

lemma main_resumed:
  assumes "w_file w = Some (Checkpoint st)" and "phase st = fetching_conjugations"
  shows "main True incompleteMode fuel env w = fetchConjugations env st w"
proof -
  have i: "initialState True w = st"
    using assms(1) by (simp add: initialState_def hasState_def loadState_def)
  obtain sg st' w' evs where f: "fetchConjugations env st w = (sg, st', w', evs)"
    by (metis prod_cases4)
  show ?thesis
    using assms(2) by (simp add: main_def Let_def i f)
qed

lemma title_gehen:
  "extractInfinitiveFromTitle (Some (js ''Flexion:gehen'')) = Some (js ''gehen'')"
  by (simp add: extractInfinitiveFromTitle_def matchRe_def execFrom_def matchAt_def titleRe_def
      str_def plusRe_def dot_def js_def group_def slice_def isLineTerminator_def)

lemma title_sich_freuen:
  "extractInfinitiveFromTitle (Some (js ''Flexion:sich freuen'')) = Some (js ''sich freuen'')"
  by (simp add: extractInfinitiveFromTitle_def matchRe_def execFrom_def matchAt_def titleRe_def
      str_def plusRe_def dot_def js_def group_def slice_def isLineTerminator_def)

lemmas run_defs = main_def initialState_def hasState_def loadState_def fetchConjugations_def
  handleTitle_def titleAt_def tryTitle_def getPageText_def apiRequest_def waitForRateLimit_def
  RATE_LIMIT_MS_def checkpointAt_def saveState_def Let_def

lemma not_rateLimit_fetch_failed: "\<not> isRateLimit (Error (js ''fetch failed''))"
  by (simp add: isRateLimit_def startsWith_def js_def)

lemma not_rateLimit_httpError: "\<not> isRateLimit (httpError r)"
  by (simp add: isRateLimit_def httpError_def startsWith_def js_def)

lemma rateLimit_rateLimitError: "isRateLimit rateLimitError"
  by (simp add: isRateLimit_def rateLimitError_def startsWith_def js_def)

lemma spaces_in_titles:
  "\<not> includesChar (js ''gehen'') 32" "includesChar (js ''sich freuen'') 32"
  by (simp_all add: includesChar_def js_def)

lemma offline_run:
  "main True False 0 offline resumable =
     (Normal,
      twoTitles\<lparr> phase := completed, processedVerbIndex := 1, lastUpdated := 100 \<rparr>,
      \<lparr> w_net = \<lparr> now = 100, lastRequestTime = 100 \<rparr>, w_calls = 1,
        w_file = Some (Checkpoint (twoTitles\<lparr> phase := completed, processedVerbIndex := 1,
                                     lastUpdated := 100 \<rparr>)),
        w_db = emptyDb \<rparr>,
      [Processing 0 (js ''gehen''), Caught 0 (Error (js ''fetch failed'')),
       Saved (twoTitles\<lparr> processedVerbIndex := 0, lastUpdated := 100 \<rparr>),
       Skipping 1,
       Saved (twoTitles\<lparr> processedVerbIndex := 1, lastUpdated := 100 \<rparr>),
       Saved (twoTitles\<lparr> phase := completed, processedVerbIndex := 1, lastUpdated := 100 \<rparr>)])"
  by (simp add: run_defs resumable_def twoTitles_def offline_def processFrom.simps
      title_gehen title_sich_freuen not_rateLimit_fetch_failed spaces_in_titles)

lemma resumable_facts:
  "w_file resumable = Some (Checkpoint twoTitles)" "phase twoTitles = fetching_conjugations"
  "processedVerbIndex twoTitles = - 1" "int (length (verbList twoTitles)) = 2"
  by (simp_all add: resumable_def twoTitles_def)

lemma throttled_run:
  "fetchConjugations throttled twoTitles resumable =
     (Exit 1,
      twoTitles\<lparr> lastUpdated := 100 \<rparr>,
      \<lparr> w_net = \<lparr> now = 100, lastRequestTime = 100 \<rparr>, w_calls = 1,
        w_file = Some (Checkpoint (twoTitles\<lparr> lastUpdated := 100 \<rparr>)), w_db = emptyDb \<rparr>,
      [Processing 0 (js ''gehen''), Caught 0 rateLimitError,
       Saved (twoTitles\<lparr> lastUpdated := 100 \<rparr>)])"
  by (simp add: run_defs resumable_def twoTitles_def throttled_def processFrom.simps
      title_gehen rateLimit_rateLimitError spaces_in_titles)

lemma offline_first_title:
  "handleTitle offline 0 twoTitles resumable =
     (Normal,
      twoTitles\<lparr> processedVerbIndex := 0, lastUpdated := 100 \<rparr>,
      \<lparr> w_net = \<lparr> now = 100, lastRequestTime = 100 \<rparr>, w_calls = 1,
        w_file = Some (Checkpoint (twoTitles\<lparr> processedVerbIndex := 0, lastUpdated := 100 \<rparr>)),
        w_db = emptyDb \<rparr>,
      [Processing 0 (js ''gehen''), Caught 0 (Error (js ''fetch failed'')),
       Saved (twoTitles\<lparr> processedVerbIndex := 0, lastUpdated := 100 \<rparr>)])"
  by (simp add: run_defs resumable_def twoTitles_def offline_def
      title_gehen not_rateLimit_fetch_failed spaces_in_titles)

lemma throttled_main:
  "main True False 0 throttled resumable =
     (Exit 1,
      twoTitles\<lparr> lastUpdated := 100 \<rparr>,
      \<lparr> w_net = \<lparr> now = 100, lastRequestTime = 100 \<rparr>, w_calls = 1,
        w_file = Some (Checkpoint (twoTitles\<lparr> lastUpdated := 100 \<rparr>)), w_db = emptyDb \<rparr>,
      [Processing 0 (js ''gehen''), Caught 0 rateLimitError,
       Saved (twoTitles\<lparr> lastUpdated := 100 \<rparr>)])"
  using main_resumed[OF resumable_facts(1,2), of False 0 throttled] throttled_run by simp


text \<open>
  Claim C3, as amended.  A run resumed from a checkpoint in the processing phase with
  cursor \<open>k\<close> takes up the titles \<open>k + 1\<close>, \<open>k + 2\<close>, \<dots> in order and never one at or before
  \<open>k\<close>.  Either it takes up every title up to the last, writing after each one the state
  with the cursor at that title's index, and ends with the write of the completed state;
  or an error whose message starts with \<open>RATE_LIMIT\<close> arrives while a title \<open>j\<close> is
  processed: then the titles before \<open>j\<close> have been handled in that way, the state with
  cursor \<open>j - 1\<close> is written, the run ends with exit code 1 and no later title is taken
  up.  In both cases the state file holds the state the run ended with.  Every execution
  of the loop body, for any index and from any state, leaves in the state file the one
  state it has written: with the cursor at its index, whatever happened to the title,
  unless the rate limit ended it.
\<close>

theorem resume_continues_after_cursor:
  assumes "w_file w = Some (Checkpoint st)" and "phase st = fetching_conjugations"
    and "processedVerbIndex st = k"
    and "main True incompleteMode fuel env w = (sg, st', w', evs)"
  shows "(sg = Normal \<and>
            marks evs = handled (k + 1) (int (length (verbList st)) - 1) @
                        [Kept (processedVerbIndex st')] \<and>
            phase st' = completed \<and> (\<forall>j e. Caught j e \<in> set evs \<longrightarrow> \<not> isRateLimit e) \<or>
          sg = Exit 1 \<and>
            (\<exists>j e. k < j \<and> j < int (length (verbList st)) \<and>
                 marks evs = handled (k + 1) (j - 1) @ [Took j, Kept (j - 1)] \<and>
                 Caught j e \<in> set evs \<and> isRateLimit e \<and> processedVerbIndex st' = j - 1)) \<and>
         w_file w' = Some (Checkpoint st') \<and>
         (\<forall>j \<le> k. Took j \<notin> set (marks evs)) \<and>
         (\<forall>i s v sg1 s1 v1 e1.
            handleTitle env i s v = (sg1, s1, v1, e1) \<longrightarrow>
              w_file v1 = Some (Checkpoint s1) \<and> saved e1 = [s1] \<and>
              (sg1 = Normal \<and> processedVerbIndex s1 = i \<and> marks e1 = [Took i, Kept i] \<or>
               sg1 = Exit 1 \<and> processedVerbIndex s1 = i - 1 \<and> marks e1 = [Took i, Kept (i - 1)] \<and>
                 (\<exists>e. Caught i e \<in> set e1 \<and> isRateLimit e)))"
proof -
  let ?n = "int (length (verbList st))"
  obtain sg1 st1 w1 evs1 where
    p: "processFrom env ?n (processedVerbIndex st + 1) st w = (sg1, st1, w1, evs1)"
    by (metis prod_cases4)
  note t = processFrom_trace[OF p]
  from processFrom_frame[OF p] have fr: "sg1 = Normal \<or> sg1 = Exit 1" by simp
  from assms(1,2,4) have f: "fetchConjugations env st w = (sg, st', w', evs)"
    by (simp add: main_resumed)
  have step: "w_file v1 = Some (Checkpoint s1) \<and> saved e1 = [s1] \<and>
              (sg1 = Normal \<and> processedVerbIndex s1 = i \<and> marks e1 = [Took i, Kept i] \<or>
               sg1 = Exit 1 \<and> processedVerbIndex s1 = i - 1 \<and> marks e1 = [Took i, Kept (i - 1)] \<and>
                 (\<exists>e. Caught i e \<in> set e1 \<and> isRateLimit e))"
    if "handleTitle env i s v = (sg1, s1, v1, e1)" for i s v sg1 s1 v1 e1
    using handleTitle_result[OF that] by auto
  have run: "(sg = Normal \<and>
            marks evs = handled (k + 1) (?n - 1) @ [Kept (processedVerbIndex st')] \<and>
            phase st' = completed \<and> (\<forall>j e. Caught j e \<in> set evs \<longrightarrow> \<not> isRateLimit e) \<or>
          sg = Exit 1 \<and>
            (\<exists>j e. k < j \<and> j < ?n \<and>
                 marks evs = handled (k + 1) (j - 1) @ [Took j, Kept (j - 1)] \<and>
                 Caught j e \<in> set evs \<and> isRateLimit e \<and> processedVerbIndex st' = j - 1)) \<and>
         w_file w' = Some (Checkpoint st') \<and>
         (\<forall>j \<le> k. Took j \<notin> set (marks evs))"
  proof (cases "sg1 = Normal")
    case True
    with f have eq: "sg = Normal" "evs = evs1 @ [Saved st']" "phase st' = completed"
      "w_file w' = Some (Checkpoint st')"
      by (auto simp: fetchConjugations_eq[OF p])
    from t True have m: "marks evs1 = handled (k + 1) (?n - 1)"
      "\<forall>j e. Caught j e \<in> set evs1 \<longrightarrow> \<not> isRateLimit e"
      using assms(3) by simp_all
    with eq show ?thesis
      by (auto simp: marks_append Took_handled)
  next
    case False
    with f have eq: "sg = sg1" "evs = evs1" "st' = st1" "w' = w1"
      by (auto simp: fetchConjugations_eq[OF p])
    from t False obtain j name e pre where
      "k + 1 \<le> j" "j < ?n" "marks evs1 = handled (k + 1) (j - 1) @ [Took j, Kept (j - 1)]"
      "processedVerbIndex st1 = j - 1" "w_file w1 = Some (Checkpoint st1)" "isRateLimit e"
      "evs1 = pre @ [Processing j name, Caught j e, Saved st1]"
      using assms(3) by auto
    with eq False fr show ?thesis
      by (auto simp: Took_handled)
  qed
  from run step show ?thesis by blast
qed

theorem resume_continues_after_cursor_witness:
  "w_file resumable = Some (Checkpoint twoTitles) \<and> phase twoTitles = fetching_conjugations \<and>
   processedVerbIndex twoTitles = - 1 \<and>
   fst (main True False 0 offline resumable) = Normal \<and>
   marks (snd (snd (snd (main True False 0 offline resumable)))) = handled 0 1 @ [Kept 1] \<and>
   handled 0 1 = [Took 0, Kept 0, Took 1, Kept 1] \<and>
   Took (- 1) \<notin> set (marks (snd (snd (snd (main True False 0 offline resumable))))) \<and>
   w_file (fst (snd (snd (main True False 0 offline resumable)))) =
     Some (Checkpoint (twoTitles\<lparr> phase := completed, processedVerbIndex := 1,
                                  lastUpdated := 100 \<rparr>)) \<and>
   w_file (fst (snd (snd (handleTitle offline 0 twoTitles resumable)))) =
     Some (Checkpoint (twoTitles\<lparr> processedVerbIndex := 0, lastUpdated := 100 \<rparr>)) \<and>
   fst (main True False 0 throttled resumable) = Exit 1 \<and>
   marks (snd (snd (snd (main True False 0 throttled resumable)))) = [Took 0, Kept (- 1)] \<and>
   w_file (fst (snd (snd (main True False 0 throttled resumable)))) =
     Some (Checkpoint (twoTitles\<lparr> lastUpdated := 100 \<rparr>))"
proof -
  note a = resume_continues_after_cursor[OF resumable_facts(1,2,3) offline_run]
  note b = resume_continues_after_cursor[OF resumable_facts(1,2,3) throttled_main]
  from a have 1: "marks [Processing 0 (js ''gehen''), Caught 0 (Error (js ''fetch failed'')),
       Saved (twoTitles\<lparr> processedVerbIndex := 0, lastUpdated := 100 \<rparr>),
       Skipping 1,
       Saved (twoTitles\<lparr> processedVerbIndex := 1, lastUpdated := 100 \<rparr>),
       Saved (twoTitles\<lparr> phase := completed, processedVerbIndex := 1, lastUpdated := 100 \<rparr>)] =
      handled 0 1 @ [Kept 1]"
    using resumable_facts by simp
  from a have 2: "w_file \<lparr> w_net = \<lparr> now = 100, lastRequestTime = 100 \<rparr>, w_calls = 1,
        w_file = Some (Checkpoint (twoTitles\<lparr> phase := completed, processedVerbIndex := 1,
                                     lastUpdated := 100 \<rparr>)),
        w_db = emptyDb \<rparr> = Some (Checkpoint (twoTitles\<lparr> phase := completed,
          processedVerbIndex := 1, lastUpdated := 100 \<rparr>))"
    by blast
  from a offline_first_title
  have 3: "w_file (fst (snd (snd (handleTitle offline 0 twoTitles resumable)))) =
     Some (Checkpoint (twoTitles\<lparr> processedVerbIndex := 0, lastUpdated := 100 \<rparr>))"
    by simp
  from b have 4: "w_file (fst (snd (snd (main True False 0 throttled resumable)))) =
     Some (Checkpoint (twoTitles\<lparr> lastUpdated := 100 \<rparr>))"
    by (simp add: throttled_main)
  have 5: "handled 0 1 = [Took 0, Kept 0, Took 1, Kept 1]"
    by (simp add: handled_def upto_rec1)
  from 1 2 3 4 5 show ?thesis
    using resumable_facts by (simp add: offline_run throttled_main)
qed

text \<open>The claim as it was stated fails when the server answers with status 429: the
  resumed run takes up the first title, writes the cursor back to where it was and
  ends; the second title is never taken up.\<close>

theorem rate_limit_stops_resumed_run_counterexample:
  "w_file resumable = Some (Checkpoint twoTitles) \<and> phase twoTitles = fetching_conjugations \<and>
   processedVerbIndex twoTitles = - 1 \<and> int (length (verbList twoTitles)) = 2 \<and>
   fst (main True False 0 throttled resumable) = Exit 1 \<and>
   marks (snd (snd (snd (main True False 0 throttled resumable)))) = [Took 0, Kept (- 1)] \<and>
   Took 1 \<notin> set (marks (snd (snd (snd (main True False 0 throttled resumable))))) \<and>
   Kept 0 \<notin> set (marks (snd (snd (snd (main True False 0 throttled resumable))))) \<and>
   marks (snd (snd (snd (main True False 0 throttled resumable)))) \<noteq> handled 0 1 @ [Kept 1]"
  using resumable_facts
  by (simp add: throttled_main handled_def upto_rec1)

lemma handleTitle_valid:
  assumes "extractInfinitiveFromTitle (titleAt (verbList st) i) = Some name"
    and "\<not> includesChar name 32"
  shows "\<exists>sg st1 w1 rest. handleTitle env i st w = (sg, st1, w1, Processing i name # rest)"
  using assms
  unfolding handleTitle_def Let_def checkpointAt_eq
  by (auto split: option.splits if_splits prod.splits title_result.splits)

lemma processFrom_valid:
  assumes "i < n" and "extractInfinitiveFromTitle (titleAt (verbList st) i) = Some name"
    and "\<not> includesChar name 32"
  shows "\<exists>sg st1 w1 rest. processFrom env n i st w = (sg, st1, w1, Processing i name # rest)"
proof -
  from handleTitle_valid[OF assms(2,3)] obtain sg st1 w1 rest where
    h: "handleTitle env i st w = (sg, st1, w1, Processing i name # rest)" by blast
  obtain sg2 st2 w2 evs2 where p: "processFrom env n (i + 1) st1 w1 = (sg2, st2, w2, evs2)"
    by (metis prod_cases4)
  show ?thesis
    by (cases "sg = Normal") (simp_all add: processFrom_step[OF assms(1) h] p)
qed

lemma fetchConjugations_valid:
  assumes "processedVerbIndex st + 1 < int (length (verbList st))"
    and "extractInfinitiveFromTitle (titleAt (verbList st) (processedVerbIndex st + 1)) = Some name"
    and "\<not> includesChar name 32"
  shows "\<exists>sg st1 w1 rest. fetchConjugations env st w = (sg, st1, w1, Processing (processedVerbIndex st + 1) name # rest)"
proof -
  from processFrom_valid[OF assms] obtain sg st1 w1 rest where
    p: "processFrom env (int (length (verbList st))) (processedVerbIndex st + 1) st w =
          (sg, st1, w1, Processing (processedVerbIndex st + 1) name # rest)"
    by blast
  show ?thesis
    by (cases "sg = Normal") (simp_all add: fetchConjugations_eq[OF p])
qed

text \<open>
  Claim C2.  In the processing phase, when an error whose message starts with
  \<open>RATE_LIMIT\<close> arrives while the title at index \<open>i\<close> is processed, the run ends with exit
  code 1, the state file holds the state the run ended with, its cursor is \<open>i - 1\<close>, and
  every resumed run takes up the title at index \<open>i\<close> first.
\<close>

theorem rate_limit_keeps_title_for_resume:
  assumes "phase st = fetching_conjugations"
    and "fetchConjugations env st w = (sg, st', w', evs)"
    and "Caught i e \<in> set evs" and "isRateLimit e"
  shows "sg = Exit 1 \<and> w_file w' = Some (Checkpoint st') \<and> processedVerbIndex st' = i - 1 \<and>
         (\<forall>incompleteMode fuel env'. \<exists>name sg2 st2 w2 rest.
            main True incompleteMode fuel env' w' = (sg2, st2, w2, Processing i name # rest))"
proof -
  let ?n = "int (length (verbList st))"
  obtain sg1 st1 w1 evs1 where
    p: "processFrom env ?n (processedVerbIndex st + 1) st w = (sg1, st1, w1, evs1)"
    by (metis prod_cases4)
  note t = processFrom_trace[OF p]
  note fr = processFrom_frame[OF p]
  have ne: "sg1 \<noteq> Normal"
  proof
    assume n: "sg1 = Normal"
    with assms(2) have "evs = evs1 @ [Saved st']"
      by (auto simp: fetchConjugations_eq[OF p])
    with assms(3) have "Caught i e \<in> set evs1" by simp
    with t n assms(4) show False by blast
  qed
  with assms(2) have eq: "sg = sg1" "st' = st1" "w' = w1" "evs = evs1"
    by (auto simp: fetchConjugations_eq[OF p])
  from t ne obtain j name e0 pre where
    x: "j < ?n" "processedVerbIndex st1 = j - 1" "w_file w1 = Some (Checkpoint st1)"
       "isRateLimit e0" "evs1 = pre @ [Processing j name, Caught j e0, Saved st1]"
       "\<forall>j' e'. Caught j' e' \<in> set pre \<longrightarrow> \<not> isRateLimit e'"
       "extractInfinitiveFromTitle (titleAt (verbList st) j) = Some name"
       "\<not> includesChar name 32"
    by blast
  from assms(3,4) eq x(5,6) have ji: "j = i" by auto
  from fr ne have ex: "sg1 = Exit 1" by simp
  have ph: "phase st1 = fetching_conjugations" using fr assms(1) by simp
  have vl: "verbList st1 = verbList st" using fr by simp
  have "\<exists>name sg2 st2 w2 rest.
          main True incompleteMode fuel env' w1 = (sg2, st2, w2, Processing i name # rest)"
    for incompleteMode fuel env'
  proof -
    have "\<exists>sg st2 w2 rest. fetchConjugations env' st1 w1 =
            (sg, st2, w2, Processing (processedVerbIndex st1 + 1) name # rest)"
      using x(1,2,7,8) vl by (intro fetchConjugations_valid) simp_all
    then show ?thesis
      using x(2) ji by (simp add: main_resumed[OF x(3) ph]) blast
  qed
  with eq ex x ji show ?thesis by simp
qed

theorem rate_limit_keeps_title_for_resume_witness:
  "phase twoTitles = fetching_conjugations \<and>
   Caught 0 rateLimitError \<in> set (snd (snd (snd (fetchConjugations throttled twoTitles resumable)))) \<and>
   isRateLimit rateLimitError \<and>
   fst (fetchConjugations throttled twoTitles resumable) = Exit 1 \<and>
   processedVerbIndex (fst (snd (fetchConjugations throttled twoTitles resumable))) = 0 - 1"
proof -
  have c: "Caught 0 rateLimitError \<in>
      set [Processing 0 (js ''gehen''), Caught 0 rateLimitError,
           Saved (twoTitles\<lparr> lastUpdated := 100 \<rparr>)]"
    by simp
  from rate_limit_keeps_title_for_resume[OF resumable_facts(2) throttled_run c
      rateLimit_rateLimitError]
  show ?thesis
    using resumable_facts(2) rateLimit_rateLimitError by (simp add: throttled_run)
qed

lemma offline_title:
  "extractInfinitiveFromTitle (titleAt (verbList twoTitles) 0) = Some (js ''gehen'')"
  "tryTitle (offline (w_calls resumable)) (js ''gehen'') resumable =
     (Threw (Error (js ''fetch failed'')),
      resumable\<lparr> w_net := \<lparr> now = 100, lastRequestTime = 100 \<rparr>, w_calls := 1 \<rparr>)"
  by (simp_all add: run_defs resumable_def twoTitles_def offline_def title_gehen)

text \<open>
  Claim C5, as amended.  In the processing phase, a failure that arrives while a title is
  fetched, parsed or stored and that is not a rate limit, whether it is the error of a
  non-success status or any other, is skipped like a single-title failure: the cursor moves
  to the title's index, the state is written, so that the state file holds it, and the
  loop goes on with the next title.
\<close>

theorem other_failures_are_skipped:
  assumes "i < totalVerbs"
    and "extractInfinitiveFromTitle (titleAt (verbList st) i) = Some name"
    and "\<not> includesChar name 32"
    and "tryTitle (env (w_calls w)) name w = (Threw e, w1)"
    and "\<not> isRateLimit e"
  shows "processFrom env totalVerbs i st w =
           (case checkpointAt i st w1 of
              (st1, w2) \<Rightarrow>
                (case processFrom env totalVerbs (i + 1) st1 w2 of
                   (sg, st2, w3, evs) \<Rightarrow>
                     (sg, st2, w3, [Processing i name, Caught i e, Saved st1] @ evs))) \<and>
         processedVerbIndex (fst (checkpointAt i st w1)) = i \<and>
         \<not> isRateLimit (httpError r) \<and>
         w_file (snd (checkpointAt i st w1)) = Some (Checkpoint (fst (checkpointAt i st w1)))"
proof -
  obtain st1 w2 where c: "checkpointAt i st w1 = (st1, w2)" by (cases "checkpointAt i st w1")
  have h: "handleTitle env i st w = (Normal, st1, w2, [Processing i name, Caught i e, Saved st1])"
    using assms(2-5) c by (simp add: handleTitle_def Let_def)
  have "processedVerbIndex (fst (checkpointAt i st w1)) = i"
    by (simp add: checkpointAt_eq)
  moreover have "w_file (snd (checkpointAt i st w1)) =
                   Some (Checkpoint (fst (checkpointAt i st w1)))"
    by (simp add: checkpointAt_eq)
  ultimately show ?thesis
    by (simp add: processFrom_step[OF assms(1) h] c not_rateLimit_httpError split: prod.splits)
qed

theorem other_failures_are_skipped_witness:
  "(0::int) < 2 \<and>
   extractInfinitiveFromTitle (titleAt (verbList twoTitles) 0) = Some (js ''gehen'') \<and>
   \<not> includesChar (js ''gehen'') 32 \<and>
   fst (tryTitle (offline (w_calls resumable)) (js ''gehen'') resumable) =
     Threw (Error (js ''fetch failed'')) \<and>
   \<not> isRateLimit (Error (js ''fetch failed'')) \<and>
   processedVerbIndex (fst (checkpointAt 0 twoTitles
      (resumable\<lparr> w_net := \<lparr> now = 100, lastRequestTime = 100 \<rparr>, w_calls := 1 \<rparr>))) = 0 \<and>
   w_file (snd (checkpointAt 0 twoTitles
      (resumable\<lparr> w_net := \<lparr> now = 100, lastRequestTime = 100 \<rparr>, w_calls := 1 \<rparr>))) =
     Some (Checkpoint (twoTitles\<lparr> processedVerbIndex := 0, lastUpdated := 100 \<rparr>))"
proof -
  have l: "(0::int) < 2" by simp
  have f: "fst (checkpointAt 0 twoTitles
      (resumable\<lparr> w_net := \<lparr> now = 100, lastRequestTime = 100 \<rparr>, w_calls := 1 \<rparr>)) =
     twoTitles\<lparr> processedVerbIndex := 0, lastUpdated := 100 \<rparr>"
    by (simp add: checkpointAt_eq)
  from other_failures_are_skipped[where env = offline and w = resumable and totalVerbs = 2,
      OF l offline_title(1) spaces_in_titles(1) offline_title(2) not_rateLimit_fetch_failed]
  show ?thesis
    using offline_title spaces_in_titles(1) not_rateLimit_fetch_failed f by simp
qed

text \<open>The claim as it was stated fails on a server that cannot be reached: the rejection
  of \<open>fetch\<close> is neither a rate limit nor the error of a status, and the run neither stops
  nor exits with an error but handles both titles and completes.\<close>

theorem unexpected_failure_counterexample:
  "Caught 0 (Error (js ''fetch failed'')) \<in> set (snd (snd (snd (main True False 0 offline resumable)))) \<and>
   \<not> isRateLimit (Error (js ''fetch failed'')) \<and>
   fst (main True False 0 offline resumable) = Normal \<and>
   phase (fst (snd (main True False 0 offline resumable))) = completed \<and>
   processedVerbIndex (fst (snd (main True False 0 offline resumable))) = 1 \<and>
   marks (snd (snd (snd (main True False 0 offline resumable)))) =
     [Took 0, Kept 0, Took 1, Kept 1, Kept 1]"
  using not_rateLimit_fetch_failed by (simp add: offline_run)

section \<open>The spacing of requests\<close>

lemma issue_apiRequest: "issue srv rq n = snd (apiRequest srv rq n)"
  by (cases rq) (auto simp: issue_def getCategoryMembers_def getPageText_def split: prod.splits sum.splits)

lemma issue_times:
  "lastRequestTime (issue srv rq n) \<le> now (issue srv rq n)"
  "lastRequestTime n \<le> now n \<Longrightarrow> 0 \<le> late (srv rq) \<Longrightarrow>
     lastRequestTime n + RATE_LIMIT_MS \<le> lastRequestTime (issue srv rq n)"
  by (simp_all add: issue_apiRequest apiRequest_def waitForRateLimit_def Let_def)

lemma startTimes_spaced_from:
  "lastRequestTime n \<le> now n \<Longrightarrow> timersNotEarly calls \<Longrightarrow>
     successively (\<lambda>a b. a + RATE_LIMIT_MS \<le> b) (lastRequestTime n # startTimes calls n)"
proof (induction calls arbitrary: n)
  case Nil
  then show ?case by simp
next
  case (Cons c calls)
  obtain srv rq where c: "c = (srv, rq)" by (cases c)
  from Cons.prems(2) c have l: "0 \<le> late (srv rq)" and t: "timersNotEarly calls"
    by (simp_all add: timersNotEarly_def)
  from Cons.IH[OF issue_times(1) t, of srv rq n]
    issue_times(2)[where srv = srv and rq = rq, OF Cons.prems(1) l]
  show ?case by (simp add: c)
qed

text \<open>Requests made one after the other whose timers are not early are spaced: the
  interval is kept by the delay of the timer alone.\<close>

lemma spaced_when_timers_are_not_early:
  assumes "timersNotEarly calls"
  shows "successively (\<lambda>a b. a + RATE_LIMIT_MS \<le> b) (startTimes calls n)"
proof (cases calls)
  case Nil
  then show ?thesis by simp
next
  case (Cons c rest)
  obtain srv rq where c: "c = (srv, rq)" by (cases c)
  from assms Cons have "timersNotEarly rest" by (simp add: timersNotEarly_def)
  from startTimes_spaced_from[OF issue_times(1) this, of srv rq n]
  show ?thesis by (simp add: Cons c)
qed

text \<open>
  Claim C6.  The claim does not hold of the code.  \<open>waitForRateLimit\<close> sets a timer for
  what is left of the interval and, when it resumes, stores the new reading of
  \<open>Date.now()\<close> as \<open>lastRequestTime\<close> without looking at the interval again.  When the timer
  fires with \<open>Date.now()\<close> one millisecond short of the delay, the second of two requests
  made one after the other starts 99 milliseconds after the first.
\<close>

theorem early_timer_starts_request_too_soon:
  "RATE_LIMIT_MS = 100 \<and>
   startTimes [(prompt, CategoryMembers CATEGORY_NAME None),
               (hasty, Parse (js ''Flexion:gehen'') False)]
     \<lparr> now = 1000, lastRequestTime = 0 \<rparr> = [1000, 1099] \<and>
   \<not> successively (\<lambda>a b. a + RATE_LIMIT_MS \<le> b)
       (startTimes [(prompt, CategoryMembers CATEGORY_NAME None),
                    (hasty, Parse (js ''Flexion:gehen'') False)]
          \<lparr> now = 1000, lastRequestTime = 0 \<rparr>)"
proof -
  have "startTimes [(prompt, CategoryMembers CATEGORY_NAME None),
               (hasty, Parse (js ''Flexion:gehen'') False)]
     \<lparr> now = 1000, lastRequestTime = 0 \<rparr> = [1000, 1099]"
    by (simp add: issue_apiRequest apiRequest_def waitForRateLimit_def Let_def prompt_def
        hasty_def RATE_LIMIT_MS_def)
  then show ?thesis by (simp add: RATE_LIMIT_MS_def)
qed

section \<open>The invariant over a run\<close>

lemma listStep_same: "verbList b = verbList a \<Longrightarrow> listStep a b"
  by (simp add: listStep_def)

lemma successively_same_list:
  "\<forall>s \<in> set xs. verbList s = verbList a \<Longrightarrow> successively listStep (a # xs)"
proof (induction xs arbitrary: a)
  case Nil
  then show ?case by simp
next
  case (Cons x xs)
  then have "successively listStep (x # xs)" by simp
  with Cons.prems show ?case by (simp add: listStep_same)
qed

lemma saveState_eq:
  "saveState st w = (st\<lparr> lastUpdated := now (w_net w) \<rparr>,
                     w\<lparr> w_file := Some (Checkpoint (st\<lparr> lastUpdated := now (w_net w) \<rparr>)) \<rparr>)"
  by (simp add: saveState_def Let_def)

lemma processFrom_saved:
  "processFrom env n i st w = (sg, st', w', evs) \<Longrightarrow>
     n = int (length (verbList st)) \<Longrightarrow>
     (verbListContinueToken st \<noteq> None \<longrightarrow> phase st = fetching_verbs) \<Longrightarrow>
     (\<forall>s \<in> set (saved evs). stateInvariant s \<and> verbList s = verbList st \<and> phase s = phase st) \<and>
     last (st # saved evs) = st'"
proof (induction env n i st w arbitrary: sg st' w' evs rule: processFrom.induct)
  case (1 env n i st w)
  show ?case
  proof (cases "i < n")
    case False
    with "1.prems" show ?thesis by (simp add: processFrom_done)
  next
    case True
    obtain sg1 st1 w1 evs1 where h: "handleTitle env i st w = (sg1, st1, w1, evs1)"
      by (metis prod_cases4)
    note r = handleTitle_result[OF h]
    from r True "1.prems"(2,3) have inv1: "stateInvariant st1"
      by (auto simp: stateInvariant_def)
    show ?thesis
    proof (cases "sg1 = Normal")
      case False
      with "1.prems"(1) True h have eq: "sg = sg1" "st' = st1" "w' = w1" "evs = evs1"
        by (simp_all add: processFrom_step[OF True h])
      with r inv1 show ?thesis by simp
    next
      case n: True
      obtain sg2 st2 w2 evs2 where p: "processFrom env n (i + 1) st1 w1 = (sg2, st2, w2, evs2)"
        by (metis prod_cases4)
      from "1.prems"(1) True h n p have eq: "sg = sg2" "st' = st2" "w' = w2" "evs = evs1 @ evs2"
        by (simp_all add: processFrom_step[OF True h])
      have a: "n = int (length (verbList st1))"
        "verbListContinueToken st1 \<noteq> None \<longrightarrow> phase st1 = fetching_verbs"
        using r "1.prems"(2,3) by simp_all
      note ih = "1.IH"[OF True h[symmetric] refl refl n p a]
      with r inv1 eq show ?thesis
        by (auto simp: saved_append)
    qed
  qed
qed

lemma fetchConjugations_saved:
  assumes "fetchConjugations env st w = (sg, st', w', evs)"
    and "stateInvariant st"
    and "phase st \<noteq> fetching_verbs"
  shows "(\<forall>s \<in> set (saved evs). stateInvariant s \<and> verbList s = verbList st)"
proof -
  let ?n = "int (length (verbList st))"
  obtain sg1 st1 w1 evs1 where
    p: "processFrom env ?n (processedVerbIndex st + 1) st w = (sg1, st1, w1, evs1)"
    by (metis prod_cases4)
  from assms(2) have tk: "verbListContinueToken st \<noteq> None \<longrightarrow> phase st = fetching_verbs"
    by (simp add: stateInvariant_def)
  note s = processFrom_saved[OF p refl tk]
  note fr = processFrom_frame[OF p]
  have inv1: "stateInvariant st1"
  proof (cases "saved evs1")
    case Nil
    with s have "st1 = st" by simp
    with assms(2) show ?thesis by simp
  next
    case (Cons a list)
    with s have "st1 \<in> set (saved evs1)" by (metis last_ConsR last_in_set list.distinct(1))
    with s show ?thesis by blast
  qed
  show ?thesis
  proof (cases "sg1 = Normal")
    case True
    with assms(1) have eq: "evs = evs1 @ [Saved (st1\<lparr> phase := completed, lastUpdated := now (w_net w1) \<rparr>)]"
      by (auto simp: fetchConjugations_eq[OF p])
    have "stateInvariant (st1\<lparr> phase := completed, lastUpdated := now (w_net w1) \<rparr>)"
      using inv1 fr assms(3) by (auto simp: stateInvariant_def)
    with s fr eq show ?thesis by (auto simp: saved_append)
  next
    case False
    with assms(1) have "evs = evs1" by (auto simp: fetchConjugations_eq[OF p])
    with s show ?thesis by simp
  qed
qed


lemma successively_chain:
  assumes "successively R (a # xs)" and "last (a # xs) = b" and "successively R (b # ys)"
  shows "successively R (a # xs @ ys)"
proof -
  have "successively R ((a # xs) @ ys)"
    unfolding successively_append_iff
    using assms by (auto simp: successively_Cons)
  then show ?thesis by simp
qed

lemma onPage_eq:
  "onPage members tok w (st, evs) =
     (w\<lparr> w_file := Some (Checkpoint (st\<lparr> verbList := verbList st @ members,
                                          verbListContinueToken := tok,
                                          lastUpdated := now (w_net w) \<rparr>)) \<rparr>,
      st\<lparr> verbList := verbList st @ members, verbListContinueToken := tok,
          lastUpdated := now (w_net w) \<rparr>,
      evs @ [Saved (st\<lparr> verbList := verbList st @ members, verbListContinueToken := tok,
                       lastUpdated := now (w_net w) \<rparr>)])"
  by (simp add: onPage_def saveState_eq)

lemma enumerate_saved:
  "getAllCategoryMembers fuel env cat onPage tok acc w (st, evs) = (r, w', st', evs') \<Longrightarrow>
   phase st = fetching_verbs \<Longrightarrow> stateInvariant st \<Longrightarrow>
   \<exists>new. evs' = evs @ new \<and>
     (\<forall>s \<in> set (saved new). stateInvariant s \<and> phase s = fetching_verbs) \<and>
     successively listStep (st # saved new) \<and> last (st # saved new) = st' \<and>
     (\<forall>members. r = Some (Inr members) \<longrightarrow> verbListContinueToken st' = None)"
proof (induction fuel arbitrary: tok acc w st evs)
  case 0
  then show ?case by simp
next
  case (Suc fuel)
  obtain res n' where g: "getCategoryMembers (env (w_calls w)) cat tok (w_net w) = (res, n')"
    by (cases "getCategoryMembers (env (w_calls w)) cat tok (w_net w)")
  let ?w1 = "w\<lparr> w_net := n', w_calls := Suc (w_calls w) \<rparr>"
  show ?case
  proof (cases res)
    case (Inl e)
    with Suc.prems(1) g have "evs' = evs" "st' = st" "r = Some (Inl e)"
      by (simp_all add: Let_def)
    then show ?thesis by simp
  next
    case (Inr page)
    obtain members nextToken where page: "page = (members, nextToken)" by (cases page)
    let ?st2 = "st\<lparr> verbList := verbList st @ members, verbListContinueToken := nextToken,
                     lastUpdated := now (w_net ?w1) \<rparr>"
    let ?w2 = "?w1\<lparr> w_file := Some (Checkpoint ?st2) \<rparr>"
    have op: "onPage members nextToken ?w1 (st, evs) = (?w2, ?st2, evs @ [Saved ?st2])"
      by (simp add: onPage_eq)
    have inv2: "stateInvariant ?st2" "phase ?st2 = fetching_verbs"
      using Suc.prems(2,3) by (auto simp: stateInvariant_def)
    have step: "listStep st ?st2"
      using Suc.prems(2) by (simp add: listStep_def)
    show ?thesis
    proof (cases nextToken)
      case None
      with Suc.prems(1) g Inr page op
      have eq: "evs' = evs @ [Saved ?st2]" "st' = ?st2"
        by (simp_all add: Let_def)
      have "evs' = evs @ [Saved ?st2] \<and>
        (\<forall>s \<in> set (saved [Saved ?st2]). stateInvariant s \<and> phase s = fetching_verbs) \<and>
        successively listStep (st # saved [Saved ?st2]) \<and> last (st # saved [Saved ?st2]) = st' \<and>
        (\<forall>members. r = Some (Inr members) \<longrightarrow> verbListContinueToken st' = None)"
        using eq inv2 step None by simp
      then show ?thesis by blast
    next
      case (Some t)
      with Suc.prems(1) g Inr page op
      have rec: "getAllCategoryMembers fuel env cat onPage nextToken (acc @ members) ?w2
                   (?st2, evs @ [Saved ?st2]) = (r, w', st', evs')"
        by (simp add: Let_def)
      from Suc.IH[OF rec inv2(2) inv2(1)] obtain new where
        n: "evs' = (evs @ [Saved ?st2]) @ new"
           "\<forall>s \<in> set (saved new). stateInvariant s \<and> phase s = fetching_verbs"
           "successively listStep (?st2 # saved new)" "last (?st2 # saved new) = st'"
           "\<forall>members. r = Some (Inr members) \<longrightarrow> verbListContinueToken st' = None"
        by blast
      have "evs' = evs @ (Saved ?st2 # new) \<and>
        (\<forall>s \<in> set (saved (Saved ?st2 # new)). stateInvariant s \<and> phase s = fetching_verbs) \<and>
        successively listStep (st # saved (Saved ?st2 # new)) \<and>
        last (st # saved (Saved ?st2 # new)) = st' \<and>
        (\<forall>members. r = Some (Inr members) \<longrightarrow> verbListContinueToken st' = None)"
        using n inv2 step by simp
      then show ?thesis by blast
    qed
  qed
qed


lemma last_saved_invariant:
  assumes "\<forall>s \<in> set xs. P s" and "P a"
  shows "P (last (a # xs))"
  using assms by (cases xs rule: rev_cases) auto

lemma fetchVerbs_saved:
  assumes f: "fetchVerbs incompleteMode fuel env st w = (sg, st', w', evs)"
    and ph: "phase st = fetching_verbs" and inv: "stateInvariant st"
    and ok: "\<not> (incompleteMode \<and> (verbListContinueToken st \<noteq> None \<or> verbList st \<noteq> []))"
  shows "(\<forall>s \<in> set (saved evs). stateInvariant s) \<and>
         successively listStep (st # saved evs) \<and> last (st # saved evs) = st' \<and>
         (sg = Normal \<longrightarrow> phase st' = fetching_conjugations)"
proof (cases incompleteMode)
  case True
  with ok have e: "verbListContinueToken st = None" "verbList st = []" by auto
  let ?st2 = "st\<lparr> verbList := map (\<lambda>v. js ''Flexion:'' @ snd v) (getIncompleteVerbs (w_db w)),
                   phase := fetching_conjugations, lastUpdated := now (w_net w) \<rparr>"
  from f True have eq: "sg = Normal" "st' = ?st2" "evs = [Saved ?st2]"
    by (auto simp: fetchVerbs_def Let_def saveState_eq)
  have "stateInvariant ?st2"
    using inv e by (auto simp: stateInvariant_def)
  moreover have "listStep st ?st2"
    using ph e by (simp add: listStep_def)
  ultimately show ?thesis using eq by simp
next
  case False
  obtain r w1 st1 evs1 where
    g: "getAllCategoryMembers fuel env CATEGORY_NAME onPage (verbListContinueToken st) [] w
          (st, []) = (r, w1, st1, evs1)"
    by (metis prod_cases4)
  from enumerate_saved[OF g ph inv] have
    n: "\<forall>s \<in> set (saved evs1). stateInvariant s \<and> phase s = fetching_verbs"
       "successively listStep (st # saved evs1)" "last (st # saved evs1) = st1"
       "\<forall>members. r = Some (Inr members) \<longrightarrow> verbListContinueToken st1 = None"
    by auto
  from last_saved_invariant[of "saved evs1" "\<lambda>s. stateInvariant s \<and> phase s = fetching_verbs" st]
    n(1,3) ph inv
  have i1: "stateInvariant st1" "phase st1 = fetching_verbs" by auto
  show ?thesis
  proof (cases r)
    case None
    with f False g have "sg = Stuck" "st' = st1" "evs = evs1"
      by (simp_all add: fetchVerbs_def)
    with n show ?thesis by simp
  next
    case (Some res)
    show ?thesis
    proof (cases res)
      case (Inl e)
      with f False g Some have "sg = Throw e" "st' = st1" "evs = evs1"
        by (simp_all add: fetchVerbs_def)
      with n show ?thesis by simp
    next
      case (Inr members)
      let ?st2 = "st1\<lparr> phase := fetching_conjugations, lastUpdated := now (w_net w1) \<rparr>"
      from f False g Some Inr have eq: "sg = Normal" "st' = ?st2" "evs = evs1 @ [Saved ?st2]"
        by (auto simp: fetchVerbs_def saveState_eq)
      from n(4) Some Inr have "verbListContinueToken st1 = None" by simp
      with i1 have i2: "stateInvariant ?st2" by (simp add: stateInvariant_def)
      have "successively listStep (st1 # [?st2])"
        by (simp add: listStep_same)
      from successively_chain[OF n(2,3) this] i2 n(1) eq show ?thesis
        by (simp add: saved_append)
    qed
  qed
qed

lemma interrupted_incomplete_run:
  "main True True 0 offline interrupted =
     (Normal, onePage\<lparr> verbList := [], phase := completed \<rparr>,
      interrupted\<lparr> w_file := Some (Checkpoint (onePage\<lparr> verbList := [], phase := completed \<rparr>)) \<rparr>,
      [Saved (onePage\<lparr> verbList := [], phase := fetching_conjugations \<rparr>),
       Saved (onePage\<lparr> verbList := [], phase := completed \<rparr>)])"
  by (simp add: run_defs fetchVerbs_def getIncompleteVerbs_def interrupted_def onePage_def
      emptyDb_def processFrom.simps)

lemma interrupted_fresh_run:
  "main False False (Suc 0) (\<lambda>n. prompt) interrupted =
     (Normal,
      \<lparr> phase = completed, verbListContinueToken = None, verbList = [],
        processedVerbIndex = - 1, lastUpdated = 100 \<rparr>,
      \<lparr> w_net = \<lparr> now = 100, lastRequestTime = 100 \<rparr>, w_calls = 1,
        w_file = Some (Checkpoint \<lparr> phase = completed, verbListContinueToken = None,
                   verbList = [], processedVerbIndex = - 1, lastUpdated = 100 \<rparr>),
        w_db = emptyDb \<rparr>,
      [Saved \<lparr> phase = fetching_verbs, verbListContinueToken = None, verbList = [],
               processedVerbIndex = - 1, lastUpdated = 100 \<rparr>,
       Saved \<lparr> phase = fetching_conjugations, verbListContinueToken = None, verbList = [],
               processedVerbIndex = - 1, lastUpdated = 100 \<rparr>,
       Saved \<lparr> phase = completed, verbListContinueToken = None, verbList = [],
               processedVerbIndex = - 1, lastUpdated = 100 \<rparr>])"
  by (simp add: run_defs fetchVerbs_def getCategoryMembers_def onPage_def orNull_def
      interrupted_def prompt_def processFrom.simps)

text \<open>
  Claim C7, as amended.  Take a run that starts fresh or from a checkpoint that satisfies
  the invariant, and that is not a run in incomplete mode resumed from an enumerating
  checkpoint that holds a token or titles.  Then every state the run writes has its cursor
  below the number of titles and a continuation token only in the enumerating phase, and
  from each checkpoint to the next the list of titles only grows at its end while the
  first is enumerating and is unchanged afterwards.
\<close>

theorem checkpoints_keep_invariant:
  assumes inv: "stateInvariant (initialState resume w)"
    and ok: "\<not> (incompleteMode \<and> phase (initialState resume w) = fetching_verbs \<and>
               (verbListContinueToken (initialState resume w) \<noteq> None \<or>
                verbList (initialState resume w) \<noteq> []))"
    and run: "main resume incompleteMode fuel env w = (sg, st', w', evs)"
  shows "(\<forall>st \<in> set (saved evs). stateInvariant st) \<and>
         successively listStep (initialState resume w # saved evs)"
proof -
  define st0 where "st0 = initialState resume w"
  obtain sg1 st1 w1 evs1 where
    p1: "(if phase st0 = fetching_verbs then fetchVerbs incompleteMode fuel env st0 w
          else (Normal, st0, w, [])) = (sg1, st1, w1, evs1)"
    by (metis prod_cases4)
  have a: "(\<forall>s \<in> set (saved evs1). stateInvariant s) \<and>
           successively listStep (st0 # saved evs1) \<and> last (st0 # saved evs1) = st1 \<and>
           (sg1 = Normal \<longrightarrow> phase st1 \<noteq> fetching_verbs)"
  proof (cases "phase st0 = fetching_verbs")
    case True
    with p1 have f: "fetchVerbs incompleteMode fuel env st0 w = (sg1, st1, w1, evs1)" by simp
    from ok True have "\<not> (incompleteMode \<and> (verbListContinueToken st0 \<noteq> None \<or> verbList st0 \<noteq> []))"
      by (simp add: st0_def)
    from fetchVerbs_saved[OF f True inv[folded st0_def] this] show ?thesis by auto
  next
    case False
    with p1 show ?thesis by auto
  qed
  from last_saved_invariant[of "saved evs1" stateInvariant st0] a inv
  have i1: "stateInvariant st1" by (auto simp: st0_def)
  show ?thesis
  proof (cases sg1)
    case Normal
    obtain sg2 st2 w2 evs2 where
      p2: "(if phase st1 = fetching_conjugations then fetchConjugations env st1 w1
            else (Normal, st1, w1, [])) = (sg2, st2, w2, evs2)"
      by (metis prod_cases4)
    from run p1 p2 Normal have eq: "evs = evs1 @ evs2"
      by (simp add: main_def Let_def st0_def[symmetric])
    have b: "\<forall>s \<in> set (saved evs2). stateInvariant s \<and> verbList s = verbList st1"
    proof (cases "phase st1 = fetching_conjugations")
      case True
      with p2 have f: "fetchConjugations env st1 w1 = (sg2, st2, w2, evs2)" by simp
      from fetchConjugations_saved[OF f i1] True show ?thesis by simp
    next
      case False
      with p2 show ?thesis by auto
    qed
    then have "successively listStep (st1 # saved evs2)"
      by (intro successively_same_list) simp
    with a have "successively listStep (st0 # saved evs1 @ saved evs2)"
      by (intro successively_chain[where b = st1]) simp_all
    with a b eq show ?thesis
      by (auto simp: saved_append st0_def)
  next
    case (Throw e)
    let ?st2 = "st1\<lparr> lastUpdated := now (w_net w1) \<rparr>"
    from run p1 Throw have eq: "evs = evs1 @ [Saved ?st2]"
      by (auto simp: main_def Let_def st0_def[symmetric] saveState_eq)
    have "stateInvariant ?st2" using i1 by (simp add: stateInvariant_def)
    moreover have "successively listStep (st1 # [?st2])" by (simp add: listStep_same)
    with a have "successively listStep (st0 # saved evs1 @ [?st2])"
      by (intro successively_chain[where b = st1]) simp_all
    ultimately show ?thesis
      using a eq by (auto simp: saved_append st0_def)
  next
    case (Exit c)
    with run p1 have "evs = evs1"
      by (auto simp: main_def Let_def st0_def[symmetric])
    with a show ?thesis by (simp add: st0_def)
  next
    case Stuck
    with run p1 have "evs = evs1"
      by (auto simp: main_def Let_def st0_def[symmetric])
    with a show ?thesis by (simp add: st0_def)
  qed
qed

theorem checkpoints_keep_invariant_witness:
  "stateInvariant (initialState False interrupted) \<and>
   length (saved (snd (snd (snd (main False False (Suc 0) (\<lambda>n. prompt) interrupted))))) = 3 \<and>
   list_all stateInvariant
     (saved (snd (snd (snd (main False False (Suc 0) (\<lambda>n. prompt) interrupted))))) \<and>
   successively listStep
     (initialState False interrupted #
      saved (snd (snd (snd (main False False (Suc 0) (\<lambda>n. prompt) interrupted)))))"
proof -
  have h1: "stateInvariant (initialState False interrupted)"
    by (simp add: stateInvariant_def initialState_def)
  have h2: "\<not> (False \<and> phase (initialState False interrupted) = fetching_verbs \<and>
        (verbListContinueToken (initialState False interrupted) \<noteq> None \<or>
         verbList (initialState False interrupted) \<noteq> []))"
    by simp
  from checkpoints_keep_invariant[OF h1 h2 interrupted_fresh_run]
  have "list_all stateInvariant
          (saved (snd (snd (snd (main False False (Suc 0) (\<lambda>n. prompt) interrupted))))) \<and>
        successively listStep
          (initialState False interrupted #
           saved (snd (snd (snd (main False False (Suc 0) (\<lambda>n. prompt) interrupted)))))"
    by (simp add: interrupted_fresh_run list_all_iff)
  moreover have "length (saved (snd (snd (snd (main False False (Suc 0) (\<lambda>n. prompt) interrupted))))) = 3"
    by (simp add: interrupted_fresh_run)
  ultimately show ?thesis using h1 by blast
qed

text \<open>The claim as it was stated fails for a run in incomplete mode that resumes an
  enumeration cut short after its first page: the checkpoint satisfies the invariant, the
  run replaces its list of titles by the (here empty) list read from the database, and it
  writes the processing phase with the token of the checkpoint still in place.\<close>

theorem incomplete_resume_counterexample:
  "initialState True interrupted = onePage \<and> stateInvariant onePage \<and>
   saved (snd (snd (snd (main True True 0 offline interrupted)))) =
     [onePage\<lparr> verbList := [], phase := fetching_conjugations \<rparr>,
      onePage\<lparr> verbList := [], phase := completed \<rparr>] \<and>
   \<not> stateInvariant (onePage\<lparr> verbList := [], phase := fetching_conjugations \<rparr>) \<and>
   \<not> listStep onePage (onePage\<lparr> verbList := [], phase := fetching_conjugations \<rparr>)"
  by (simp add: interrupted_incomplete_run)
     (simp add: initialState_def hasState_def loadState_def interrupted_def onePage_def
        stateInvariant_def listStep_def js_def)

section \<open>The matcher and the language of a pattern\<close>

lemma rep_binds:
  assumes body: "\<And>k' st' res'. body k' st' = Some res' \<Longrightarrow>
                   \<exists>e cs. k' (e, cs) = Some res' \<and> dom (snd st') \<subseteq> dom cs"
  shows "rep g m body k st = Some res \<Longrightarrow> \<exists>e cs. k (e, cs) = Some res \<and> dom (snd st) \<subseteq> dom cs"
proof (induction m arbitrary: st)
  case 0
  then show ?case by (cases st) auto
next
  case (Suc m)
  let ?k' = "\<lambda>st'. if fst st < fst st' then rep g m body k st' else None"
  from Suc.prems have "k st = Some res \<or> body ?k' st = Some res"
    by (auto split: if_splits option.splits)
  then show ?case
  proof
    assume "k st = Some res"
    then show ?thesis by (cases st) auto
  next
    assume "body ?k' st = Some res"
    from body[OF this] obtain e1 cs1 where
      s: "?k' (e1, cs1) = Some res" "dom (snd st) \<subseteq> dom cs1" by blast
    then have "rep g m body k (e1, cs1) = Some res" by (auto split: if_splits)
    from Suc.IH[OF this] obtain e cs where "k (e, cs) = Some res" "dom cs1 \<subseteq> dom cs"
      by auto
    with s(2) show ?thesis by blast
  qed
qed

lemma matcher_binds:
  "matcher r s k st = Some res \<Longrightarrow>
     \<exists>e cs. k (e, cs) = Some res \<and> dom (snd st) \<subseteq> dom cs \<and> (binds n r \<longrightarrow> n \<in> dom cs)"
proof (induction r arbitrary: k st res)
  case Eps
  then show ?case by (cases st) auto
next
  case (Lit c)
  then show ?case by (cases st) (auto split: if_splits)
next
  case (Cls P)
  then show ?case by (cases st) (auto split: if_splits)
next
  case (Seq a b)
  from Seq.prems have "matcher a s (matcher b s k) st = Some res" by simp
  from Seq.IH(1)[OF this] obtain e1 cs1 where
    a: "matcher b s k (e1, cs1) = Some res" "dom (snd st) \<subseteq> dom cs1"
       "binds n a \<longrightarrow> n \<in> dom cs1" by blast
  from Seq.IH(2)[OF a(1)] obtain e2 cs2 where
    b: "k (e2, cs2) = Some res" "dom cs1 \<subseteq> dom cs2"
       "binds n b \<longrightarrow> n \<in> dom cs2" by auto
  have "dom (snd st) \<subseteq> dom cs2 \<and> (binds n (Seq a b) \<longrightarrow> n \<in> dom cs2)"
    using a b by auto
  with b(1) show ?case by blast
next
  case (Alt a b)
  from Alt.prems have "matcher a s k st = Some res \<or> matcher b s k st = Some res"
    by (auto split: option.splits)
  then show ?case
  proof
    assume "matcher a s k st = Some res"
    from Alt.IH(1)[OF this] show ?thesis by auto
  next
    assume "matcher b s k st = Some res"
    from Alt.IH(2)[OF this] show ?thesis by auto
  qed
next
  case (Star g r)
  have "\<exists>e cs. k' (e, cs) = Some res' \<and> dom (snd st') \<subseteq> dom cs"
    if "matcher r s k' st' = Some res'" for k' st' res'
    using Star.IH[OF that] by blast
  from rep_binds[of "matcher r s", OF this] Star.prems show ?case by simp
next
  case (Grp m r)
  from Grp.prems have
    "matcher r s (\<lambda>st'. k (fst st', (snd st')(m \<mapsto> (fst st, fst st')))) st = Some res" by simp
  from Grp.IH[OF this] obtain e1 cs1 where
    g: "k (e1, cs1(m \<mapsto> (fst st, e1))) = Some res"
       "dom (snd st) \<subseteq> dom cs1" "binds n r \<longrightarrow> n \<in> dom cs1" by auto
  have "dom (snd st) \<subseteq> dom (cs1(m \<mapsto> (fst st, e1))) \<and>
        (binds n (Grp m r) \<longrightarrow> n \<in> dom (cs1(m \<mapsto> (fst st, e1))))"
    using g by auto
  with g(1) show ?case by blast
next
  case Bol
  then show ?case by (cases st) (auto split: if_splits)
next
  case Eol
  then show ?case by (cases st) (auto split: if_splits)
next
  case WordB
  then show ?case by (cases st) (auto split: if_splits)
qed

lemma matchRe_binds:
  assumes "matchRe s re = Some m" and "binds n re"
  shows "\<exists>g. group s m n = Some g"
proof -
  from assms(1) obtain p where "matchAt re s p = Some m"
    unfolding matchRe_def execFrom_def by (blast dest: firstSome_Some)
  then obtain e cs where m: "matcher re s Some (p, Map.empty) = Some (e, cs)" "m = (p, e, cs)"
    by (auto simp: matchAt_def split: option.splits)
  from matcher_binds[OF m(1), of n] assms(2) have "n \<in> dom cs" by auto
  with m(2) show ?thesis by (auto simp: group_def)
qed


lemma slice_self: "slice s p p = []"
  by (simp add: slice_def)

lemma slice_single: "p < length s \<Longrightarrow> slice s p (Suc p) = [s ! p]"
  by (simp add: slice_def take_Suc_conv_app_nth[of 0] hd_drop_conv_nth take_Suc)

lemma slice_append: "p \<le> m \<Longrightarrow> m \<le> e \<Longrightarrow> slice s p e = slice s p m @ slice s m e"
proof -
  assume a: "p \<le> m" "m \<le> e"
  then have "e - p = (m - p) + (e - m)" by simp
  then have "take (e - p) (drop p s) = take (m - p) (drop p s) @ take (e - m) (drop (m - p) (drop p s))"
    by (simp add: take_add)
  with a show ?thesis by (simp add: slice_def)
qed

lemma length_slice: "p \<le> e \<Longrightarrow> e \<le> length s \<Longrightarrow> length (slice s p e) = e - p"
  by (simp add: slice_def)

lemma slice_split:
  assumes "p \<le> e" "e \<le> length s" "slice s p e = u @ v"
  shows "p + length u \<le> e \<and> slice s p (p + length u) = u \<and> slice s (p + length u) e = v"
proof -
  from length_slice[OF assms(1,2)] assms(3) have l: "length u + length v = e - p" by simp
  then have le: "p + length u \<le> e" using assms(1) by simp
  from slice_append[of p "p + length u" e s] le
  have "slice s p e = slice s p (p + length u) @ slice s (p + length u) e" by simp
  moreover have "length (slice s p (p + length u)) = length u"
    using le assms(2) by (simp add: length_slice)
  ultimately show ?thesis using assms(3) le by (metis append_eq_append_conv)
qed

lemma rep_sound:
  assumes body: "\<And>k' p' cs' res'. body k' (p', cs') = Some res' \<Longrightarrow> p' \<le> length s \<Longrightarrow>
                   \<exists>e cs. p' \<le> e \<and> e \<le> length s \<and> slice s p' e \<in> A \<and> k' (e, cs) = Some res'"
  shows "rep g m body k (p, cs) = Some res \<Longrightarrow> p \<le> length s \<Longrightarrow>
           \<exists>e cs'. p \<le> e \<and> e \<le> length s \<and> slice s p e \<in> star A \<and> k (e, cs') = Some res"
proof (induction m arbitrary: p cs)
  case 0
  then have "k (p, cs) = Some res" by simp
  with 0 show ?case using star.nil[of A] by (metis le_refl slice_self)
next
  case (Suc m)
  let ?k' = "\<lambda>st'. if p < fst st' then rep g m body k st' else None"
  from Suc.prems have "k (p, cs) = Some res \<or> body ?k' (p, cs) = Some res"
    by (auto split: if_splits option.splits)
  then show ?case
  proof
    assume "k (p, cs) = Some res"
    with Suc.prems show ?thesis using star.nil[of A] by (metis le_refl slice_self)
  next
    assume "body ?k' (p, cs) = Some res"
    from body[OF this Suc.prems(2)] obtain e1 cs1 where
      a: "p \<le> e1" "e1 \<le> length s" "slice s p e1 \<in> A" "?k' (e1, cs1) = Some res" by blast
    from a(4) have lt: "p < e1" and r: "rep g m body k (e1, cs1) = Some res"
      by (auto split: if_splits)
    from Suc.IH[OF r a(2)] obtain e2 cs2 where
      b: "e1 \<le> e2" "e2 \<le> length s" "slice s e1 e2 \<in> star A" "k (e2, cs2) = Some res" by blast
    have ne: "slice s p e1 \<noteq> []"
      using length_slice[OF a(1,2)] lt by auto
    have "slice s p e2 = slice s p e1 @ slice s e1 e2"
      using a(1) b(1) by (rule slice_append)
    with star.step[OF a(3) ne b(3)] have "slice s p e2 \<in> star A" by simp
    with a b show ?thesis by (meson le_trans)
  qed
qed

lemma matcher_sound:
  "anchorFree r \<Longrightarrow> matcher r s k (p, cs) = Some res \<Longrightarrow> p \<le> length s \<Longrightarrow>
     \<exists>e cs'. p \<le> e \<and> e \<le> length s \<and> slice s p e \<in> lang r \<and> k (e, cs') = Some res"
proof (induction r arbitrary: k p cs res)
  case Eps
  then show ?case by (auto intro!: exI[of _ p] simp: slice_self)
next
  case (Lit c)
  then have "p < length s" "s ! p = c" "k (Suc p, cs) = Some res"
    by (auto split: if_splits)
  then show ?case
    by (intro exI[of _ "Suc p"] exI[of _ cs]) (simp add: slice_single)
next
  case (Cls P)
  then have "p < length s" "P (s ! p)" "k (Suc p, cs) = Some res"
    by (auto split: if_splits)
  then show ?case
    by (intro exI[of _ "Suc p"] exI[of _ cs]) (simp add: slice_single)
next
  case (Seq a b)
  from Seq.prems have af: "anchorFree a" "anchorFree b"
    and m: "matcher a s (matcher b s k) (p, cs) = Some res" by simp_all
  from Seq.IH(1)[OF af(1) m Seq.prems(3)] obtain e1 cs1 where
    a: "p \<le> e1" "e1 \<le> length s" "slice s p e1 \<in> lang a"
       "matcher b s k (e1, cs1) = Some res" by blast
  from Seq.IH(2)[OF af(2) a(4) a(2)] obtain e2 cs2 where
    b: "e1 \<le> e2" "e2 \<le> length s" "slice s e1 e2 \<in> lang b" "k (e2, cs2) = Some res" by blast
  have "slice s p e2 = slice s p e1 @ slice s e1 e2"
    using a(1) b(1) by (rule slice_append)
  with a(3) b(3) have "slice s p e2 \<in> lang (Seq a b)" by auto
  with a b show ?case by (meson le_trans)
next
  case (Alt a b)
  from Alt.prems have "matcher a s k (p, cs) = Some res \<or> matcher b s k (p, cs) = Some res"
    by (auto split: option.splits)
  then show ?case
  proof
    assume "matcher a s k (p, cs) = Some res"
    from Alt.IH(1)[OF _ this Alt.prems(3)] Alt.prems(1) show ?thesis by auto
  next
    assume "matcher b s k (p, cs) = Some res"
    from Alt.IH(2)[OF _ this Alt.prems(3)] Alt.prems(1) show ?thesis by auto
  qed
next
  case (Star g r)
  from Star.prems have af: "anchorFree r" by simp
  have "\<exists>e cs. p' \<le> e \<and> e \<le> length s \<and> slice s p' e \<in> lang r \<and> k' (e, cs) = Some res'"
    if "matcher r s k' (p', cs') = Some res'" "p' \<le> length s" for k' p' cs' res'
    using Star.IH[OF af that] .
  from rep_sound[of "matcher r s" s "lang r", OF this] Star.prems(2,3)
  show ?case by simp
next
  case (Grp n r)
  from Grp.prems have af: "anchorFree r"
    and m: "matcher r s (\<lambda>st'. k (fst st', (snd st')(n \<mapsto> (p, fst st')))) (p, cs) = Some res"
    by simp_all
  from Grp.IH[OF af m Grp.prems(3)] show ?case by auto
qed simp_all


lemma slice_Nil_iff: "p \<le> e \<Longrightarrow> e \<le> length s \<Longrightarrow> slice s p e = [] \<longleftrightarrow> e = p"
  using length_slice[of p e s] by auto

lemma rep_idle:
  assumes "k (p, cs) \<noteq> None"
  shows "rep g m body k (p, cs) \<noteq> None"
  using assms by (cases m) (auto split: option.splits)

lemma rep_complete:
  assumes body: "\<And>k' p' e' cs. p' \<le> e' \<Longrightarrow> e' \<le> length s \<Longrightarrow> slice s p' e' \<in> A \<Longrightarrow>
                   (\<forall>cs'. k' (e', cs') \<noteq> None) \<Longrightarrow> body k' (p', cs) \<noteq> None"
    and k: "\<forall>cs'. k (e, cs') \<noteq> None" and e: "e \<le> length s"
  shows "w \<in> star A \<Longrightarrow> w = slice s p e \<Longrightarrow> p \<le> e \<Longrightarrow> e - p \<le> m \<Longrightarrow>
           rep g m body k (p, cs) \<noteq> None"
proof (induction w arbitrary: p m cs rule: star.induct)
  case nil
  from nil.prems(1)[symmetric] nil.prems(2) e have "e = p" by (simp add: slice_Nil_iff)
  with k show ?case by (intro rep_idle) simp
next
  case (step u v)
  from slice_split[OF step.prems(2) e step.prems(1)[symmetric]]
  have sp: "p + length u \<le> e" "slice s p (p + length u) = u" "slice s (p + length u) e = v"
    by auto
  let ?mid = "p + length u"
  from step.hyps(2) have lt: "p < ?mid" by simp
  with sp(1) step.prems(3) obtain m' where m: "m = Suc m'" by (cases m) auto
  let ?k' = "\<lambda>st'. if p < fst st' then rep g m' body k st' else None"
  have "\<forall>cs'. ?k' (?mid, cs') \<noteq> None"
  proof
    fix cs'
    have "e - ?mid \<le> m'"
      using sp(1) step.prems(3) m lt by linarith
    then have "rep g m' body k (?mid, cs') \<noteq> None"
      using sp by (intro step.IH) auto
    with lt show "?k' (?mid, cs') \<noteq> None" by simp
  qed
  from body[OF _ _ _ this, of p cs] sp step.hyps(1) e
  have "body ?k' (p, cs) \<noteq> None" by auto
  then show ?case
    unfolding m by (auto split: option.splits)
qed

lemma matcher_complete:
  "anchorFree r \<Longrightarrow> p \<le> e \<Longrightarrow> e \<le> length s \<Longrightarrow> slice s p e \<in> lang r \<Longrightarrow>
     (\<forall>cs'. k (e, cs') \<noteq> None) \<Longrightarrow> matcher r s k (p, cs) \<noteq> None"
proof (induction r arbitrary: k p e cs)
  case Eps
  then have "e = p" by (simp add: slice_Nil_iff)
  with Eps show ?case by simp
next
  case (Lit c)
  from Lit.prems have "length (slice s p e) = 1" by simp
  with length_slice[OF Lit.prems(2,3)] Lit.prems(2) have e: "e = Suc p" by simp
  with Lit.prems have "p < length s" by simp
  with Lit.prems e have "s ! p = c" by (simp add: slice_single)
  with Lit.prems e \<open>p < length s\<close> show ?case by simp
next
  case (Cls P)
  from Cls.prems obtain c where c: "slice s p e = [c]" "P c" by auto
  then have "length (slice s p e) = 1" by simp
  with length_slice[OF Cls.prems(2,3)] Cls.prems(2) have e: "e = Suc p" by simp
  with Cls.prems have "p < length s" by simp
  with c e have "P (s ! p)" by (simp add: slice_single)
  with Cls.prems e \<open>p < length s\<close> show ?case by simp
next
  case (Seq a b)
  from Seq.prems obtain u v where uv: "slice s p e = u @ v" "u \<in> lang a" "v \<in> lang b" by auto
  from slice_split[OF Seq.prems(2,3) uv(1)]
  have sp: "p + length u \<le> e" "slice s p (p + length u) = u" "slice s (p + length u) e = v"
    by auto
  from Seq.prems have af: "anchorFree a" "anchorFree b" by simp_all
  have "\<forall>cs'. matcher b s k (p + length u, cs') \<noteq> None"
    using Seq.IH(2)[OF af(2) sp(1) Seq.prems(3) _ Seq.prems(5)] sp(3) uv(3) by simp
  from Seq.IH(1)[OF af(1) _ _ _ this, of p cs] sp uv(2) Seq.prems(3)
  show ?case by simp
next
  case (Alt a b)
  from Alt.prems have af: "anchorFree a" "anchorFree b" by simp_all
  from Alt.prems have "slice s p e \<in> lang a \<or> slice s p e \<in> lang b" by simp
  then show ?case
  proof
    assume "slice s p e \<in> lang a"
    from Alt.IH(1)[OF af(1) Alt.prems(2,3) this Alt.prems(5), of cs]
    show ?thesis by (auto split: option.splits)
  next
    assume "slice s p e \<in> lang b"
    from Alt.IH(2)[OF af(2) Alt.prems(2,3) this Alt.prems(5), of cs]
    show ?thesis by (auto split: option.splits)
  qed
next
  case (Star g r)
  from Star.prems have af: "anchorFree r" by simp
  have body: "matcher r s k' (p', cs) \<noteq> None"
    if "p' \<le> e'" "e' \<le> length s" "slice s p' e' \<in> lang r" "\<forall>cs'. k' (e', cs') \<noteq> None"
    for k' p' e' cs
    using Star.IH[OF af that] .
  from Star.prems have w: "slice s p e \<in> star (lang r)" by simp
  have "rep g (length s - p) (matcher r s) k (p, cs) \<noteq> None"
    using Star.prems(2,3)
    by (intro rep_complete[of s "lang r" "matcher r s" k e, OF body Star.prems(5) Star.prems(3) w])
       auto
  then show ?case by simp
next
  case (Grp n r)
  from Grp.prems have af: "anchorFree r" and l: "slice s p e \<in> lang r" by simp_all
  have g: "matcher r s (\<lambda>st'. k (fst st', (snd st')(n \<mapsto> (p, fst st')))) (p, cs) \<noteq> None"
    using Grp.prems(5) by (intro Grp.IH[OF af Grp.prems(2,3) l]) simp
  show ?case unfolding matcher.simps fst_conv snd_conv by (rule g)
qed simp_all


declare matchesFrom.simps [simp del]

lemma lang_str: "lang (str w) = {w}"
  by (induction w) (auto simp: str_def)

lemma anchorFree_str: "anchorFree (str w)"
  by (induction w) (auto simp: str_def)

lemma firstSome_None_iff: "firstSome f xs = None \<longleftrightarrow> (\<forall>x \<in> set xs. f x = None)"
  by (induction xs) (auto split: option.splits)

lemma matchAt_lang:
  assumes "anchorFree re" and "matchAt re s p = Some (p', e, cs)" and "p \<le> length s"
  shows "p' = p \<and> p \<le> e \<and> e \<le> length s \<and> slice s p e \<in> lang re"
proof -
  from assms(2) have m: "matcher re s Some (p, Map.empty) = Some (e, cs)" and p: "p' = p"
    by (auto simp: matchAt_def split: option.splits)
  from matcher_sound[OF assms(1) m assms(3)] p show ?thesis by auto
qed

lemma execFrom_lang:
  assumes "anchorFree re" and "execFrom re s i = Some (p, e, cs)"
  shows "slice s p e \<in> lang re"
proof -
  from assms(2) obtain x where x: "x \<in> set [i..<Suc (length s)]" "matchAt re s x = Some (p, e, cs)"
    unfolding execFrom_def by (blast dest: firstSome_Some)
  then have "x \<le> length s" by auto
  from matchAt_lang[OF assms(1) x(2) this] show ?thesis by simp
qed

lemma matchesFrom_lang:
  "anchorFree re \<Longrightarrow> row \<in> set (matchesFrom re s i) \<Longrightarrow> row \<in> lang re"
proof (induction re s i rule: matchesFrom.induct)
  case (1 re s i)
  show ?case
  proof (cases "execFrom re s i")
    case None
    with "1.prems" show ?thesis by (simp add: matchesFrom.simps[of re s i])
  next
    case (Some m)
    obtain p e cs where m: "m = (p, e, cs)" by (cases m)
    from "1.prems"(2) Some m have
      "row = slice s p e \<or> row \<in> set (matchesFrom re s (if e \<le> p then Suc p else e))"
      by (simp add: matchesFrom.simps[of re s i])
    then show ?thesis
    proof
      assume "row = slice s p e"
      with execFrom_lang[OF "1.prems"(1)] Some m show ?thesis by simp
    next
      assume "row \<in> set (matchesFrom re s (if e \<le> p then Suc p else e))"
      with "1.IH"[OF Some m[symmetric] refl "1.prems"(1)] Some m show ?thesis by simp
    qed
  qed
qed

lemma lang_Seq_tail: "w \<in> lang (Seq a b) \<Longrightarrow> \<exists>u v. w = u @ v \<and> v \<in> lang b"
  by auto

lemma row_has_cell:
  assumes "row \<in> lang rowRe"
  shows "\<exists>u v. row = u @ v \<and> v \<in> lang cellRe"
proof -
  let ?tail = "Seq (str (js ''<td>'')) (Seq (Grp 2 (Star False dot)) (str (10 # js ''</td>'')))"
  from assms obtain u1 v1 where 1: "row = u1 @ v1"
    "v1 \<in> lang (Seq (Star True (notChar 62)) (Seq (str (js ''><small>''))
            (Seq (Grp 1 (Star False dot)) (Seq (str (js ''</small>'' @ 10 # js ''</td>'' @ [10])) ?tail))))"
    unfolding rowRe_def by (blast dest: lang_Seq_tail)
  from 1(2) obtain u2 v2 where 2: "v1 = u2 @ v2"
    "v2 \<in> lang (Seq (str (js ''><small>''))
            (Seq (Grp 1 (Star False dot)) (Seq (str (js ''</small>'' @ 10 # js ''</td>'' @ [10])) ?tail)))"
    by (blast dest: lang_Seq_tail)
  from 2(2) obtain u3 v3 where 3: "v2 = u3 @ v3"
    "v3 \<in> lang (Seq (Grp 1 (Star False dot)) (Seq (str (js ''</small>'' @ 10 # js ''</td>'' @ [10])) ?tail))"
    by (blast dest: lang_Seq_tail)
  from 3(2) obtain u4 v4 where 4: "v3 = u4 @ v4"
    "v4 \<in> lang (Seq (str (js ''</small>'' @ 10 # js ''</td>'' @ [10])) ?tail)"
    by (blast dest: lang_Seq_tail)
  from 4(2) obtain u5 v5 where 5: "v4 = u5 @ v5" "v5 \<in> lang ?tail"
    by (blast dest: lang_Seq_tail)
  have "lang ?tail = lang cellRe" by (simp add: cellRe_def)
  with 5(2) have "v5 \<in> lang cellRe" by (simp only:)
  moreover have "row = (u1 @ u2 @ u3 @ u4 @ u5) @ v5" using 1 2 3 4 5 by simp
  ultimately show ?thesis by blast
qed

lemma anchorFree_patterns: "anchorFree rowRe" "anchorFree cellRe"
  by (simp_all add: rowRe_def cellRe_def anchorFree_str dot_def notChar_def)

lemma binds_patterns: "binds 1 cellRe" "binds 1 h2Re" "binds 1 (sectionRe l e)"
  by (simp_all add: cellRe_def h2Re_def sectionRe_def)

lemma cellOf_row:
  assumes "row \<in> lang rowRe"
  shows "\<exists>c. cellOf row = Inr c"
proof -
  from row_has_cell[OF assms] obtain u v where uv: "row = u @ v" "v \<in> lang cellRe" by blast
  have sl: "slice row (length u) (length row) = v" by (simp add: uv(1) slice_def)
  have "matcher cellRe row Some (length u, Map.empty) \<noteq> None"
    using uv sl by (intro matcher_complete[OF anchorFree_patterns(2), of _ "length row"]) auto
  then have "matchAt cellRe row (length u) \<noteq> None"
    by (auto simp: matchAt_def split: option.splits)
  moreover have "length u \<in> set [0..<Suc (length row)]" by (simp add: uv(1))
  ultimately have "\<not> (\<forall>x \<in> set [0..<Suc (length row)]. matchAt cellRe row x = None)"
    by (intro notI) (drule bspec, assumption, simp)
  then have "execFrom cellRe row 0 \<noteq> None"
    by (simp only: execFrom_def firstSome_None_iff not_False_eq_True)
  then obtain m where m: "matchRe row cellRe = Some m" by (auto simp: matchRe_def)
  from matchRe_binds[OF m binds_patterns(1)] obtain g where "group row m 1 = Some g" by blast
  with m show ?thesis by (simp add: cellOf_def)
qed

lemma thenE_Inr_ex:
  assumes "\<exists>x. r = Inr x" and "\<And>x. \<exists>y. f x = Inr y"
  shows "\<exists>y. thenE r f = Inr y"
  using assms by (auto simp: thenE_def)

lemma parseConjugationRows_total:
  assumes "\<forall>rs. rows = Some rs \<longrightarrow> (\<forall>row \<in> set rs. row \<in> lang rowRe)"
  shows "\<exists>f. parseConjugationRows rows = Inr f"
proof (cases rows)
  case None
  then show ?thesis by (simp add: parseConjugationRows_def)
next
  case (Some rs)
  show ?thesis
  proof (cases "length rs < 6")
    case True
    with Some show ?thesis by (simp add: parseConjugationRows_def)
  next
    case False
    then have len: "6 \<le> length rs" by simp
    have c: "\<exists>c. cellOf (rs ! i) = Inr c" if "i < 6" for i
    proof -
      from that len have "rs ! i \<in> set rs" by simp
      with assms Some show ?thesis by (auto intro!: cellOf_row)
    qed
    obtain c0 where "cellOf (rs ! 0) = Inr c0" using c[of 0] by auto
    moreover obtain c1 where "cellOf (rs ! 1) = Inr c1" using c[of 1] by auto
    moreover obtain c2 where "cellOf (rs ! 2) = Inr c2" using c[of 2] by auto
    moreover obtain c3 where "cellOf (rs ! 3) = Inr c3" using c[of 3] by auto
    moreover obtain c4 where "cellOf (rs ! 4) = Inr c4" using c[of 4] by auto
    moreover obtain c5 where "cellOf (rs ! 5) = Inr c5" using c[of 5] by auto
    ultimately have "cellOf (rs ! 0) = Inr c0" "cellOf (rs ! 1) = Inr c1"
      "cellOf (rs ! 2) = Inr c2" "cellOf (rs ! 3) = Inr c3" "cellOf (rs ! 4) = Inr c4"
      "cellOf (rs ! 5) = Inr c5" by simp_all
    with Some False show ?thesis by (simp add: parseConjugationRows_def thenE_def)
  qed
qed


lemma matchGlobal_rows:
  assumes "matchGlobal sec rowRe = Some rs" and "row \<in> set rs"
  shows "row \<in> lang rowRe"
proof -
  from assms(1) have "rs = matchesFrom rowRe sec 0"
    by (auto simp: matchGlobal_def split: list.splits)
  with assms(2) matchesFrom_lang[OF anchorFree_patterns(1)] show ?thesis by blast
qed

lemma parseSection_total: "\<exists>f. parseSection t (sectionRe l e) = Inr f"
proof (cases "matchRe t (sectionRe l e)")
  case None
  then show ?thesis by (simp add: parseSection_def)
next
  case (Some m)
  from matchRe_binds[OF Some binds_patterns(3)] obtain sec where
    g: "group t m 1 = Some sec" by blast
  have "\<exists>f. parseConjugationRows (matchGlobal sec rowRe) = Inr f"
    by (intro parseConjugationRows_total) (auto dest: matchGlobal_rows)
  with Some g show ?thesis by (simp add: parseSection_def)
qed

lemma parseInfinitive_total: "\<exists>i. parseInfinitive t = Inr i"
proof (cases "matchRe t h2Re")
  case None
  then show ?thesis by (simp add: parseInfinitive_def)
next
  case (Some m)
  from matchRe_binds[OF Some binds_patterns(2)] obtain g where "group t m 1 = Some g" by blast
  with Some show ?thesis
    by (auto simp: parseInfinitive_def Let_def split: option.splits)
qed

lemma detectSeparablePrefix_total: "\<exists>sp. detectSeparablePrefix pr = Inr sp"
  using splitOn_nonempty[of 44]
  by (auto simp: detectSeparablePrefix_def Let_def split: option.splits list.splits)

text \<open>
  Claim C1, as amended.  For \<open>null\<close> and for the empty string the parser returns \<open>null\<close>.
  For every other string it returns a result object and never throws: a tense whose
  section is not found stays empty, and every row found in a section holds a cell that
  the cell pattern matches, whatever else the row holds, so that no \<open>null\<close> is indexed.
\<close>

theorem parseConjugations_returns:
  "parseConjugations None = Inr None \<and> parseConjugations (Some []) = Inr None \<and>
   (t \<noteq> [] \<longrightarrow> (\<exists>pv. parseConjugations (Some t) = Inr (Some pv)))"
proof -
  obtain name where 0: "parseInfinitive t = Inr name"
    using parseInfinitive_total by blast
  obtain pr where 1: "parseSection t (sectionRe praesensLabel nextSpan) = Inr pr"
    using parseSection_total by blast
  obtain pt where 2: "parseSection t (sectionRe praeteritumLabel nextSpan) = Inr pt"
    using parseSection_total by blast
  obtain pf where 3: "parseSection t (sectionRe (js ''Perfekt'') nextSpan) = Inr pf"
    using parseSection_total by blast
  obtain pq where 4: "parseSection t (sectionRe (js ''Plusquamperfekt'') tableEnd) = Inr pq"
    using parseSection_total by blast
  obtain f1 where 5: "parseSection t (sectionRe (js ''Futur I'') nextSpan) = Inr f1"
    using parseSection_total by blast
  obtain f2 where 6: "parseSection t (sectionRe (js ''Futur II'') tableEnd) = Inr f2"
    using parseSection_total by blast
  obtain sp where 7: "detectSeparablePrefix pr = Inr sp"
    using detectSeparablePrefix_total by blast
  have "t \<noteq> [] \<Longrightarrow> \<exists>pv. parseConjugations (Some t) = Inr (Some pv)"
    by (simp add: parseConjugations_def thenE_def 0 1 2 3 4 5 6 7)
  then show ?thesis
    by (simp add: parseConjugations_def)
qed

theorem parseConjugations_returns_witness:
  "js ''x'' \<noteq> [] \<and> (\<exists>pv. parseConjugations (Some (js ''x'')) = Inr (Some pv)) \<and>
   parseConjugations (Some (js ''x'')) = Inr (Some emptyParsed)"
proof -
  have h: "js ''x'' \<noteq> []" by (simp add: js_def)
  from parseConjugations_returns[of "js ''x''"] h
  have "\<exists>pv. parseConjugations (Some (js ''x'')) = Inr (Some pv)" by blast
  with h parseConjugations_x show ?thesis by blast
qed

text \<open>The claim as it was stated fails for the empty text and for \<open>null\<close>: the result is
  \<open>null\<close> and not a result object.\<close>

theorem parseConjugations_empty_counterexample:
  "parseConjugations (Some []) = Inr None \<and> parseConjugations None = Inr None \<and>
   \<not> (\<exists>pv. parseConjugations (Some []) = Inr (Some pv))"
  by (simp add: parseConjugations_def)

section \<open>The separable prefix\<close>

text \<open>Replacing \<open>/\s+/g\<close> by one space is \<open>collapse\<close>: the pattern matches at a whitespace
  character and takes the whole run.\<close>

declare replaceFrom.simps [simp del]

lemma rep_cls_greedy:
  "length s - p \<le> n \<Longrightarrow>
     rep True n (matcher (Cls P) s) Some (p, cs) = Some (p + length (takeWhile P (drop p s)), cs)"
proof (induction n arbitrary: p)
  case 0
  then show ?case by simp
next
  case (Suc n)
  show ?case
  proof (cases "p < length s \<and> P (s ! p)")
    case True
    then have d: "drop p s = s ! p # drop (Suc p) s" by (simp add: Cons_nth_drop_Suc)
    from Suc.prems have "length s - Suc p \<le> n" by simp
    from Suc.IH[OF this] True d show ?thesis by simp
  next
    case False
    then have "takeWhile P (drop p s) = []"
      by (cases "p < length s") (auto simp: takeWhile_eq_Nil_iff hd_drop_conv_nth)
    with False show ?thesis by auto
  qed
qed

lemma matchAt_spaces:
  "matchAt spacesRe s p =
     (if p < length s \<and> isSpace (s ! p)
      then Some (p, Suc p + length (takeWhile isSpace (drop (Suc p) s)), Map.empty)
      else None)"
  by (simp add: matchAt_def spacesRe_def plusRe_def rep_cls_greedy)

lemma execFrom_step:
  assumes "i \<le> length s"
  shows "execFrom re s i =
           (case matchAt re s i of Some m \<Rightarrow> Some m | None \<Rightarrow> execFrom re s (Suc i))"
proof -
  from assms have "[i..<Suc (length s)] = i # [Suc i..<Suc (length s)]"
    by (simp add: upt_conv_Cons del: upt_Suc)
  then show ?thesis unfolding execFrom_def by (simp del: upt_Suc)
qed

lemma execFrom_end: "length s < i \<Longrightarrow> execFrom re s i = None"
  by (simp add: execFrom_def del: upt_Suc)

lemma drop_takeWhile_run:
  "drop (a + length (takeWhile P (drop a s))) s = dropWhile P (drop a s)"
proof -
  have "drop (length (takeWhile P (drop a s))) (drop a s) = dropWhile P (drop a s)"
    by (metis append_eq_conv_conj takeWhile_dropWhile_id)
  then show ?thesis by (simp add: add.commute)
qed

lemma replace_spaces_from:
  "i \<le> length s \<Longrightarrow> replaceFrom spacesRe [32] s i i = collapse (drop i s)"
proof (induction "length s - i" arbitrary: i rule: less_induct)
  case less
  show ?case
  proof (cases "i < length s")
    case False
    with less.prems have i: "i = length s" by simp
    have "execFrom spacesRe s i = None"
      unfolding i by (simp add: execFrom_step[of "length s" s] matchAt_spaces execFrom_end)
    then show ?thesis
      unfolding i by (simp add: replaceFrom.simps[of spacesRe "[32]" s "length s" "length s"])
  next
    case True
    then have d: "drop i s = s ! i # drop (Suc i) s" by (simp add: Cons_nth_drop_Suc)
    show ?thesis
    proof (cases "isSpace (s ! i)")
      case sp: True
      let ?e = "Suc i + length (takeWhile isSpace (drop (Suc i) s))"
      have le: "?e \<le> length s"
      proof -
        have "length (takeWhile isSpace (drop (Suc i) s)) \<le> length (drop (Suc i) s)"
          by (rule length_takeWhile_le)
        with True show ?thesis by simp
      qed
      have ex: "execFrom spacesRe s i = Some (i, ?e, Map.empty)"
        using True sp by (simp add: execFrom_step[OF less.prems] matchAt_spaces)
      have "replaceFrom spacesRe [32] s ?e ?e = collapse (drop ?e s)"
        using le True by (intro less.hyps) auto
      then have "replaceFrom spacesRe [32] s i i = 32 # collapse (drop ?e s)"
        by (simp add: replaceFrom.simps[of spacesRe "[32]" s i i] ex slice_def)
      also have "drop ?e s = dropWhile isSpace (drop (Suc i) s)"
        by (rule drop_takeWhile_run)
      finally show ?thesis using sp by (simp add: d)
    next
      case ns: False
      have ex: "execFrom spacesRe s i = execFrom spacesRe s (Suc i)"
        using ns by (simp add: execFrom_step[OF less.prems] matchAt_spaces)
      have ih: "replaceFrom spacesRe [32] s (Suc i) (Suc i) = collapse (drop (Suc i) s)"
        using True by (intro less.hyps) auto
      have "replaceFrom spacesRe [32] s i i = s ! i # replaceFrom spacesRe [32] s (Suc i) (Suc i)"
      proof (cases "execFrom spacesRe s (Suc i)")
        case None
        then show ?thesis
          by (simp add: replaceFrom.simps[of spacesRe "[32]" s i i]
              replaceFrom.simps[of spacesRe "[32]" s "Suc i" "Suc i"] ex d)
      next
        case (Some m)
        obtain p e cs where m: "m = (p, e, cs)" by (cases m)
        from execFrom_range[OF Some[unfolded m]] have p: "Suc i \<le> p" "p \<le> length s" by auto
        from p have pi: "p - i = Suc (p - Suc i)" by simp
        have "slice s i p = s ! i # slice s (Suc i) p"
          unfolding slice_def pi d by simp
        then show ?thesis
          by (simp add: replaceFrom.simps[of spacesRe "[32]" s i i]
              replaceFrom.simps[of spacesRe "[32]" s "Suc i" "Suc i"] ex Some m)
      qed
      with ih ns show ?thesis by (simp add: d)
    qed
  qed
qed

lemma replaceAll_spaces: "replaceAll s spacesRe (js '' '') = collapse s"
  using replace_spaces_from[of 0 s] by (simp add: replaceAll_def js_def)

text \<open>What \<open>extractTextFromCell\<close> returns is tidy: the last replacement collapses the
  whitespace, and splitting at commas, trimming and joining with \<open>", "\<close> keep that.\<close>

lemma tidy_Cons:
  "tidy (x # s) \<longleftrightarrow> (isSpace x \<longrightarrow> x = 32 \<and> (s \<noteq> [] \<longrightarrow> \<not> isSpace (hd s))) \<and> tidy s"
  by (cases s) auto

lemma collapse_Nil_iff: "collapse s = [] \<longleftrightarrow> s = []"
  by (cases s) auto

lemma isSpace_32: "isSpace 32"
  by (simp add: isSpace_def)

lemma hd_collapse: "s \<noteq> [] \<Longrightarrow> isSpace (hd (collapse s)) = isSpace (hd s)"
  by (cases s) (auto simp: isSpace_32)

lemma tidy_collapse: "tidy (collapse s)"
proof (induction s rule: collapse.induct)
  case 1
  then show ?case by simp
next
  case (2 c cs)
  show ?case
  proof (cases "isSpace c")
    case True
    have "dropWhile isSpace cs \<noteq> [] \<Longrightarrow> \<not> isSpace (hd (dropWhile isSpace cs))"
      by (rule hd_dropWhile)
    with True 2 show ?thesis
      by (simp add: tidy_Cons collapse_Nil_iff hd_collapse del: dropWhile_eq_Nil_conv)
  next
    case False
    with 2 show ?thesis by (simp add: tidy_Cons)
  qed
qed

lemma tidy_appendD: "tidy (a @ b) \<Longrightarrow> tidy a \<and> tidy b"
  by (induction a) (auto simp: tidy_Cons hd_append split: if_splits)

lemma tidy_appendI:
  "tidy a \<Longrightarrow> tidy b \<Longrightarrow> a = [] \<or> b = [] \<or> \<not> isSpace (last a) \<Longrightarrow> tidy (a @ b)"
  by (induction a) (auto simp: tidy_Cons hd_append split: if_splits)

lemma tidy_spaces: "tidy s \<Longrightarrow> x \<in> set s \<Longrightarrow> isSpace x \<Longrightarrow> x = 32"
  by (induction s) (auto simp: tidy_Cons)

lemma splitOn_hd_prefix: "\<exists>b. s = hd (splitOn c s) @ b"
  by (induction s) (auto split: list.splits)

lemma splitOn_piece:
  "p \<in> set (splitOn c s) \<Longrightarrow> \<exists>a b. s = a @ p @ b"
proof (induction s arbitrary: p)
  case Nil
  then show ?case by simp
next
  case (Cons x xs)
  show ?case
  proof (cases "x = c")
    case True
    with Cons.prems have "p = [] \<or> p \<in> set (splitOn c xs)" by simp
    then show ?thesis
    proof
      assume "p = []"
      then have "x # xs = [] @ p @ (x # xs)" by simp
      then show ?thesis by blast
    next
      assume "p \<in> set (splitOn c xs)"
      from Cons.IH[OF this] obtain a b where "xs = a @ p @ b" by blast
      then have "x # xs = (x # a) @ p @ b" by simp
      then show ?thesis by blast
    qed
  next
    case False
    obtain q qs where q: "splitOn c xs = q # qs"
      using splitOn_nonempty[of c xs] by (cases "splitOn c xs") auto
    with False Cons.prems have "p = x # q \<or> p \<in> set qs" by simp
    then show ?thesis
    proof
      assume p: "p = x # q"
      from splitOn_hd_prefix[of xs c] q obtain b where "xs = q @ b" by auto
      with p have "x # xs = [] @ p @ b" by simp
      then show ?thesis by blast
    next
      assume "p \<in> set qs"
      with q have "p \<in> set (splitOn c xs)" by simp
      from Cons.IH[OF this] obtain a b where "xs = a @ p @ b" by blast
      then have "x # xs = (x # a) @ p @ b" by simp
      then show ?thesis by blast
    qed
  qed
qed

lemma tidy_piece: "tidy s \<Longrightarrow> p \<in> set (splitOn c s) \<Longrightarrow> tidy p"
  using splitOn_piece[of p c s] tidy_appendD by blast

lemma trim_inside: "\<exists>a b. s = a @ trim s @ b"
proof -
  let ?d = "dropWhile isSpace s"
  have a: "takeWhile isSpace (rev ?d) @ dropWhile isSpace (rev ?d) = rev ?d"
    by (rule takeWhile_dropWhile_id)
  have "rev (dropWhile isSpace (rev ?d)) @ rev (takeWhile isSpace (rev ?d)) = ?d"
    using arg_cong[OF a, of rev] by (simp only: rev_append rev_rev_ident)
  then have "?d = trim s @ rev (takeWhile isSpace (rev ?d))"
    by (simp only: trim_def)
  moreover have "s = takeWhile isSpace s @ ?d" by simp
  ultimately have "s = takeWhile isSpace s @ trim s @ rev (takeWhile isSpace (rev ?d))"
    by simp
  then show ?thesis by blast
qed

lemma tidy_trim: "tidy s \<Longrightarrow> tidy (trim s)"
  using trim_inside[of s] tidy_appendD by metis

lemma last_dropWhile: "dropWhile P xs \<noteq> [] \<Longrightarrow> last (dropWhile P xs) = last xs"
proof -
  assume a: "dropWhile P xs \<noteq> []"
  have "last xs = last (takeWhile P xs @ dropWhile P xs)" by simp
  also have "\<dots> = last (dropWhile P xs)" using a by (simp only: last_append if_False)
  finally show ?thesis by simp
qed

lemma trim_ends:
  assumes "trim s \<noteq> []"
  shows "\<not> isSpace (hd (trim s)) \<and> \<not> isSpace (last (trim s))"
proof -
  let ?d = "dropWhile isSpace s"
  let ?e = "dropWhile isSpace (rev ?d)"
  from assms have e: "?e \<noteq> []" by (simp add: trim_def)
  then have d: "?d \<noteq> []" by (metis dropWhile.simps(1) rev.simps(1))
  have "last (trim s) = hd ?e" by (simp add: trim_def last_rev)
  moreover have "\<not> isSpace (hd ?e)" using e by (rule hd_dropWhile)
  moreover have "hd (trim s) = last ?e" by (simp add: trim_def hd_rev)
  moreover have "last ?e = last (rev ?d)" using e by (rule last_dropWhile)
  moreover have "last (rev ?d) = hd ?d" by (simp add: last_rev)
  moreover have "\<not> isSpace (hd ?d)" using d by (rule hd_dropWhile)
  ultimately show ?thesis by simp
qed

lemma tidy_join:
  assumes "\<And>p. p \<in> set ps \<Longrightarrow> p \<noteq> [] \<and> tidy p \<and> \<not> isSpace (hd p) \<and> \<not> isSpace (last p)"
  shows "tidy (joinWith (js '', '') ps) \<and>
         (ps \<noteq> [] \<longrightarrow> joinWith (js '', '') ps \<noteq> [] \<and>
            hd (joinWith (js '', '') ps) = hd (hd ps))"
  using assms
proof (induction "js '', ''" ps rule: joinWith.induct)
  case 1
  then show ?case by simp
next
  case (2 p)
  then show ?case by simp
next
  case (3 p q ps)
  let ?r = "joinWith (js '', '') (q # ps)"
  from 3 have r: "tidy ?r" "?r \<noteq> []" "hd ?r = hd q" by auto
  from 3(2)[of q] have q: "\<not> isSpace (hd q)" by simp
  from 3(2)[of p] have p: "p \<noteq> []" "tidy p" "\<not> isSpace (hd p)" "\<not> isSpace (last p)" by auto
  have "tidy (44 # 32 # ?r)" using r q by (simp add: tidy_Cons isSpace_def)
  with p have "tidy (p @ 44 # 32 # ?r)" by (intro tidy_appendI) auto
  with p show ?case by (simp add: js_def)
qed

lemma tidy_extractTextFromCell: "tidy (extractTextFromCell c)"
proof -
  have "tidy (joinWith (js '', '') (filter (\<lambda>s. s \<noteq> []) (map trim (splitOn 44 (collapse x)))))" for x
  proof -
    have "p \<noteq> [] \<and> tidy p \<and> \<not> isSpace (hd p) \<and> \<not> isSpace (last p)"
      if "p \<in> set (filter (\<lambda>s. s \<noteq> []) (map trim (splitOn 44 (collapse x))))" for p
    proof -
      from that obtain q where q: "q \<in> set (splitOn 44 (collapse x))" "p = trim q" "p \<noteq> []"
        by auto
      from tidy_piece[OF tidy_collapse q(1)] have "tidy p" unfolding q(2) by (rule tidy_trim)
      with q trim_ends[of q] show ?thesis by simp
    qed
    from tidy_join[of "filter (\<lambda>s. s \<noteq> []) (map trim (splitOn 44 (collapse x)))", OF this]
    show ?thesis by blast
  qed
  then show ?thesis
    by (simp add: extractTextFromCell_def Let_def replaceAll_spaces)
qed

lemma cellOf_tidy: "cellOf row = Inr v \<Longrightarrow> tidy v"
  by (auto simp: cellOf_def tidy_extractTextFromCell split: option.splits)

lemma parseConjugationRows_tidy:
  assumes "parseConjugationRows rows = Inr pr" and "pr Sg1 = Some v"
  shows "tidy v"
proof (cases rows)
  case None
  with assms show ?thesis by (auto simp: parseConjugationRows_def)
next
  case (Some rs)
  show ?thesis
  proof (cases "length rs < 6")
    case True
    with Some assms show ?thesis by (auto simp: parseConjugationRows_def)
  next
    case False
    with Some assms(1) obtain c1 c2 c3 c4 c5 c6 where
      c: "cellOf (rs ! 0) = Inr c1"
      and pr: "pr = [Sg1 \<mapsto> c1, Sg2 \<mapsto> c2, Sg3 \<mapsto> c3, Pl1 \<mapsto> c4, Pl2 \<mapsto> c5, Pl3 \<mapsto> c6]"
      by (auto simp: parseConjugationRows_def thenE_Inr)
    from pr assms(2) have "v = c1" by simp
    with cellOf_tidy[OF c] show ?thesis by simp
  qed
qed

lemma parseSection_tidy:
  assumes "parseSection t re = Inr pr" and "pr Sg1 = Some v"
  shows "tidy v"
  using assms parseConjugationRows_tidy
  by (auto simp: parseSection_def split: option.splits)

text \<open>In a tidy string without whitespace at its ends the pieces between spaces are the
  whitespace-delimited tokens, and the pattern \<open>/^(mich|dich|sich|uns|euch)$/i\<close> accepts
  the reflexive pronouns and nothing else.\<close>

lemma splitWhen_splitOn:
  "(\<And>x. x \<in> set s \<Longrightarrow> P x \<longleftrightarrow> x = c) \<Longrightarrow> splitWhen P s = splitOn c s"
  by (induction s) auto

lemma splitOn_no_empty:
  "tidy s \<Longrightarrow> s \<noteq> [] \<Longrightarrow> last s \<noteq> 32 \<Longrightarrow>
     [] \<notin> set (tl (splitOn 32 s)) \<and> (hd s \<noteq> 32 \<longrightarrow> hd (splitOn 32 s) \<noteq> [])"
proof (induction s)
  case Nil
  then show ?case by simp
next
  case (Cons x xs)
  show ?case
  proof (cases "xs = []")
    case True
    with Cons.prems show ?thesis by simp
  next
    case False
    with Cons.prems have t: "tidy xs" and l: "last xs \<noteq> 32" by (simp_all add: tidy_Cons)
    from Cons.IH[OF t False l]
    have ih: "[] \<notin> set (tl (splitOn 32 xs))" "hd xs \<noteq> 32 \<longrightarrow> hd (splitOn 32 xs) \<noteq> []"
      by simp_all
    obtain q qs where q: "splitOn 32 xs = q # qs"
      using splitOn_nonempty[of 32 xs] by (cases "splitOn 32 xs") auto
    show ?thesis
    proof (cases "x = 32")
      case True
      with Cons.prems False have "\<not> isSpace (hd xs)" by (simp add: tidy_Cons isSpace_32)
      then have "hd xs \<noteq> 32" using isSpace_32 by auto
      with ih q True show ?thesis by simp
    next
      case False
      with ih q show ?thesis by simp
    qed
  qed
qed

lemma wsTokens_tidy:
  assumes "tidy f" and "f \<noteq> []" and "\<not> isSpace (hd f)" and "\<not> isSpace (last f)"
  shows "wsTokens f = splitOn 32 f"
proof -
  have "isSpace x \<longleftrightarrow> x = 32" if "x \<in> set f" for x
    using tidy_spaces[OF assms(1) that] isSpace_32 by auto
  then have s: "splitWhen isSpace f = splitOn 32 f" by (rule splitWhen_splitOn)
  from assms(3,4) isSpace_32 have "hd f \<noteq> 32" "last f \<noteq> 32" by auto
  with splitOn_no_empty[OF assms(1,2)]
  have "[] \<notin> set (tl (splitOn 32 f))" "hd (splitOn 32 f) \<noteq> []" by simp_all
  then have "[] \<notin> set (splitOn 32 f)"
    using splitOn_nonempty[of 32 f] by (cases "splitOn 32 f") auto
  then have "filter (\<lambda>t. t \<noteq> []) (splitOn 32 f) = splitOn 32 f"
    by (intro filter_True) auto
  with s show ?thesis by (simp add: wsTokens_def)
qed

lemma splitOn_two: "c \<in> set s \<Longrightarrow> 2 \<le> length (splitOn c s)"
proof (induction s)
  case Nil
  then show ?case by simp
next
  case (Cons x xs)
  obtain q qs where q: "splitOn c xs = q # qs"
    using splitOn_nonempty[of c xs] by (cases "splitOn c xs") auto
  show ?case
  proof (cases "x = c")
    case True
    with q show ?thesis by simp
  next
    case False
    with Cons.prems have "c \<in> set xs" by simp
    from Cons.IH[OF this] q False show ?thesis by simp
  qed
qed

lemma lang_stri: "lang (stri w) = {u. map asciiLower u = map asciiLower w}"
proof (induction w)
  case Nil
  then show ?case by (simp add: stri_def)
next
  case (Cons c w)
  have s: "stri (c # w) = Seq (Cls (\<lambda>x. asciiLower x = asciiLower c)) (stri w)"
    by (simp add: stri_def)
  show ?case unfolding s
  proof (intro set_eqI iffI)
    fix u
    assume "u \<in> lang (Seq (Cls (\<lambda>x. asciiLower x = asciiLower c)) (stri w))"
    then obtain x v where "u = [x] @ v" "asciiLower x = asciiLower c" "v \<in> lang (stri w)"
      by auto
    with Cons show "u \<in> {u. map asciiLower u = map asciiLower (c # w)}" by simp
  next
    fix u
    assume "u \<in> {u. map asciiLower u = map asciiLower (c # w)}"
    then obtain z zs where "u = z # zs" "asciiLower z = asciiLower c"
      "map asciiLower zs = map asciiLower w"
      by (auto simp: map_eq_Cons_conv)
    with Cons have "u = [z] @ zs" "[z] \<in> lang (Cls (\<lambda>x. asciiLower x = asciiLower c))"
      "zs \<in> lang (stri w)" by simp_all
    then show "u \<in> lang (Seq (Cls (\<lambda>x. asciiLower x = asciiLower c)) (stri w))"
      unfolding lang.simps by blast
  qed
qed

lemma anchorFree_stri: "anchorFree (stri w)"
  by (induction w) (auto simp: stri_def)

lemma anchorFree_reflexiveAlt: "anchorFree reflexiveAlt"
  by (simp add: reflexiveAlt_def anchorFree_stri)

lemma lang_reflexiveAlt: "t \<in> lang reflexiveAlt \<longleftrightarrow> isReflexivePronoun t"
  by (simp add: reflexiveAlt_def lang_stri isReflexivePronoun_def)
     (auto simp: js_def asciiLower_def)

lemma matchAt_reflexive:
  "matchAt reflexive t p \<noteq> None \<longleftrightarrow> p = 0 \<and> isReflexivePronoun t"
proof (cases "p = 0")
  case False
  then show ?thesis by (simp add: matchAt_def reflexive_def)
next
  case True
  have m: "matcher reflexive t Some (0, Map.empty) =
             matcher reflexiveAlt t (matcher Eol t Some) (0, Map.empty)"
    by (simp add: reflexive_def)
  have a: "matchAt reflexive t 0 \<noteq> None \<longleftrightarrow>
             matcher reflexiveAlt t (matcher Eol t Some) (0, Map.empty) \<noteq> None"
    unfolding matchAt_def m
    by (cases "matcher reflexiveAlt t (matcher Eol t Some) (0, Map.empty)") auto
  have "matcher reflexiveAlt t (matcher Eol t Some) (0, Map.empty) \<noteq> None \<longleftrightarrow>
          isReflexivePronoun t"
  proof
    assume "matcher reflexiveAlt t (matcher Eol t Some) (0, Map.empty) \<noteq> None"
    then obtain res where
      "matcher reflexiveAlt t (matcher Eol t Some) (0, Map.empty) = Some res" by blast
    from matcher_sound[OF anchorFree_reflexiveAlt this]
    obtain e cs' where e: "e \<le> length t" "slice t 0 e \<in> lang reflexiveAlt"
      "matcher Eol t Some (e, cs') = Some res" by auto
    from e(3) have "e = length t" by (simp split: if_splits)
    with e(2) have "t \<in> lang reflexiveAlt" by (simp add: slice_def)
    then show "isReflexivePronoun t" by (simp add: lang_reflexiveAlt)
  next
    assume "isReflexivePronoun t"
    then have "slice t 0 (length t) \<in> lang reflexiveAlt"
      by (simp add: lang_reflexiveAlt slice_def)
    then show "matcher reflexiveAlt t (matcher Eol t Some) (0, Map.empty) \<noteq> None"
      by (intro matcher_complete[OF anchorFree_reflexiveAlt, of 0 "length t"]) simp_all
  qed
  with True a show ?thesis by blast
qed

lemma test_reflexive: "test reflexive t \<longleftrightarrow> isReflexivePronoun t"
proof -
  have "execFrom reflexive t 0 = None \<longleftrightarrow> \<not> isReflexivePronoun t"
  proof
    assume "execFrom reflexive t 0 = None"
    then have "\<forall>x \<in> set [0..<Suc (length t)]. matchAt reflexive t x = None"
      by (simp only: execFrom_def firstSome_None_iff)
    then have "matchAt reflexive t 0 = None" by (simp del: upt_Suc)
    with matchAt_reflexive[of t 0] show "\<not> isReflexivePronoun t" by simp
  next
    assume n: "\<not> isReflexivePronoun t"
    have "\<forall>x \<in> set [0..<Suc (length t)]. matchAt reflexive t x = None"
    proof
      fix x
      from matchAt_reflexive[of t x] n show "matchAt reflexive t x = None" by blast
    qed
    then show "execFrom reflexive t 0 = None"
      by (simp only: execFrom_def firstSome_None_iff)
  qed
  then show ?thesis by (auto simp: test_def)
qed

lemma detectSeparablePrefix_tidy:
  assumes "tidy sg1"
  shows "detectSeparablePrefix [Sg1 \<mapsto> sg1] = Inr (specSeparablePrefix sg1)"
    and "pr Sg1 = Some sg1 \<Longrightarrow> detectSeparablePrefix pr = Inr (specSeparablePrefix sg1)"
proof -
  obtain first rest where sp: "splitOn 44 sg1 = first # rest"
    using splitOn_nonempty[of 44 sg1] by (cases "splitOn 44 sg1") auto
  let ?f = "trim first"
  from sp have "first \<in> set (splitOn 44 sg1)" by simp
  from tidy_piece[OF assms this] have tf: "tidy ?f" by (rule tidy_trim)
  have e: "specSeparablePrefix [] = []"
    by (simp add: specSeparablePrefix_def trim_def includesChar_def)
  have k: "joinWith (js '' '') (filter (\<lambda>p. \<not> test reflexive p) (drop 1 (splitOn 32 ?f))) =
           joinWith (js '' '') (filter (\<lambda>t. \<not> isReflexivePronoun t) (tl (wsTokens ?f)))"
    if "32 \<in> set ?f"
  proof -
    from that have ne: "?f \<noteq> []" by auto
    from wsTokens_tidy[OF tf ne] trim_ends[OF ne] have "wsTokens ?f = splitOn 32 ?f" by simp
    then show ?thesis by (simp add: test_reflexive drop_Suc)
  qed
  have d: "detectSeparablePrefix pr = Inr (specSeparablePrefix sg1)" if "pr Sg1 = Some sg1" for pr
  proof (cases "sg1 = []")
    case True
    with that e show ?thesis by (simp add: detectSeparablePrefix_def)
  next
    case False
    show ?thesis
    proof (cases "32 \<in> set ?f")
      case True
      from splitOn_two[OF True] k[OF True] True False that sp show ?thesis
        by (simp add: detectSeparablePrefix_def specSeparablePrefix_def includesChar_def Let_def)
    next
      case n: False
      with False that sp show ?thesis
        by (simp add: detectSeparablePrefix_def specSeparablePrefix_def includesChar_def Let_def)
    qed
  qed
  show "detectSeparablePrefix [Sg1 \<mapsto> sg1] = Inr (specSeparablePrefix sg1)"
    by (rule d) simp
  show "pr Sg1 = Some sg1 \<Longrightarrow> detectSeparablePrefix pr = Inr (specSeparablePrefix sg1)"
    by (rule d)
qed

text \<open>The cell \<open>ich stehe auf\<close>, step by step.\<close>

lemmas re_defs = execFrom_def matchAt_def
  supRe_def tagRe_def entityRe_def spacesRe_def erSieEsRe_def pronounRe_def reflexiveRe_def
  reflexiveAlt_def stri_def str_def plusRe_def notChar_def dot_def isWordAt_def isWordChar_def
  asciiLower_def slice_def js_def

lemma stehe_auf_sup: "replaceAll (js ''ich stehe auf'') supRe [] = js ''ich stehe auf''"
  by (simp add: replaceAll_def replaceFrom.simps re_defs)

lemma stehe_auf_tag: "replaceAll (js ''ich stehe auf'') tagRe (js '' '') = js ''ich stehe auf''"
  by (simp add: replaceAll_def replaceFrom.simps re_defs)

lemma stehe_auf_entity:
  "replaceAll (js ''ich stehe auf'') entityRe (js '' '') = js ''ich stehe auf''"
  by (simp add: replaceAll_def replaceFrom.simps re_defs)

lemma stehe_auf_collapse: "collapse (js ''ich stehe auf'') = js ''ich stehe auf''"
  by (simp add: js_def isSpace_def)

lemma stehe_auf_trim: "trim (js ''ich stehe auf'') = js ''ich stehe auf''"
  by (simp add: trim_def js_def isSpace_def)

lemma stehe_auf_erSieEs:
  "replaceAll (js ''ich stehe auf'') erSieEsRe (js '','') = js ''ich stehe auf''"
  by (simp add: replaceAll_def replaceFrom.simps re_defs)

lemma stehe_auf_pronoun:
  "replaceAll (js ''ich stehe auf'') pronounRe (js '','') = js '', stehe auf''"
  by (simp add: replaceAll_def replaceFrom.simps re_defs)

lemma stehe_auf_reflexive:
  "replaceAll (js '', stehe auf'') reflexiveRe [] = js '', stehe auf''"
  by (simp add: replaceAll_def replaceFrom.simps re_defs)

lemma stehe_auf_collapse2: "collapse (js '', stehe auf'') = js '', stehe auf''"
  by (simp add: js_def isSpace_def)

lemma stehe_auf_pieces:
  "joinWith (js '', '') (filter (\<lambda>s. s \<noteq> []) (map trim (splitOn 44 (js '', stehe auf'')))) =
     js ''stehe auf''"
  by (simp add: trim_def js_def isSpace_def)

lemma cell_stehe_auf: "extractTextFromCell (js ''ich stehe auf'') = js ''stehe auf''"
  unfolding extractTextFromCell_def Let_def replaceAll_spaces
  by (simp only: stehe_auf_sup stehe_auf_tag stehe_auf_entity stehe_auf_collapse stehe_auf_trim
      stehe_auf_erSieEs stehe_auf_pronoun stehe_auf_reflexive stehe_auf_collapse2
      stehe_auf_pieces)

lemma spec_stehe_auf: "specSeparablePrefix (js ''stehe auf'') = js ''auf''"
  by (simp add: specSeparablePrefix_def wsTokens_def isReflexivePronoun_def includesChar_def
      trim_def isSpace_def asciiLower_def js_def)

lemma spec_stehe: "specSeparablePrefix (js ''stehe'') = []"
  by (simp add: specSeparablePrefix_def includesChar_def trim_def isSpace_def js_def)


text \<open>
  Claim C8.  For every result of the parser the separable prefix is what the
  specification describes, computed from the present-tense first-person-singular slot:
  nothing when the slot is absent; otherwise, from the first comma-delimited alternative,
  the whitespace-delimited tokens after the first that are not reflexive pronouns, joined
  by spaces when the alternative holds a space, and nothing when it does not.  The slot
  set of the result is the one the present-tense section was parsed to: the detection
  only reads it.  The same holds for the text of any cell, and \<open>stehe auf\<close> gives
  \<open>auf\<close>, \<open>stehe\<close> gives nothing.
\<close>

theorem separablePrefix_is_rest_of_first_alternative:
  assumes "parseConjugations raw = Inr (Some pv)"
  shows "separablePrefix pv =
           (case praesens pv Sg1 of None \<Rightarrow> [] | Some sg1 \<Rightarrow> specSeparablePrefix sg1) \<and>
         (\<exists>t. raw = Some t \<and>
              parseSection t (sectionRe praesensLabel nextSpan) = Inr (praesens pv)) \<and>
         detectSeparablePrefix [Sg1 \<mapsto> extractTextFromCell c] =
           Inr (specSeparablePrefix (extractTextFromCell c)) \<and>
         specSeparablePrefix (js ''stehe auf'') = js ''auf'' \<and>
         specSeparablePrefix (js ''stehe'') = []"
proof -
  from parseConjugations_Some[OF assms] obtain t where
    t: "raw = Some t" "parseSection t (sectionRe praesensLabel nextSpan) = Inr (praesens pv)"
    and d: "detectSeparablePrefix (praesens pv) = Inr (separablePrefix pv)"
    by blast
  have 1: "separablePrefix pv =
           (case praesens pv Sg1 of None \<Rightarrow> [] | Some sg1 \<Rightarrow> specSeparablePrefix sg1)"
  proof (cases "praesens pv Sg1")
    case None
    with d show ?thesis by (simp add: detectSeparablePrefix_def)
  next
    case (Some sg1)
    from parseSection_tidy[OF t(2) Some] have "tidy sg1" .
    from detectSeparablePrefix_tidy(2)[where pr = "praesens pv", OF this Some] d Some
    show ?thesis by simp
  qed
  have 3: "detectSeparablePrefix [Sg1 \<mapsto> extractTextFromCell c] =
             Inr (specSeparablePrefix (extractTextFromCell c))"
    by (rule detectSeparablePrefix_tidy(1)[OF tidy_extractTextFromCell])
  from 1 t 3 spec_stehe_auf spec_stehe show ?thesis by blast
qed

theorem separablePrefix_is_rest_of_first_alternative_witness:
  "parseConjugations (Some (js ''x'')) = Inr (Some emptyParsed) \<and>
   separablePrefix emptyParsed = [] \<and> praesens emptyParsed Sg1 = None \<and>
   parseSection (js ''x'') (sectionRe praesensLabel nextSpan) = Inr (praesens emptyParsed) \<and>
   extractTextFromCell (js ''ich stehe auf'') = js ''stehe auf'' \<and>
   detectSeparablePrefix [Sg1 \<mapsto> js ''stehe auf''] = Inr (js ''auf'')"
proof -
  from separablePrefix_is_rest_of_first_alternative[OF parseConjugations_x,
      of "js ''ich stehe auf''"]
  have a: "separablePrefix emptyParsed =
             (case praesens emptyParsed Sg1 of None \<Rightarrow> []
              | Some sg1 \<Rightarrow> specSeparablePrefix sg1)"
    and b: "parseSection (js ''x'') (sectionRe praesensLabel nextSpan) =
              Inr (praesens emptyParsed)"
    and c: "detectSeparablePrefix [Sg1 \<mapsto> extractTextFromCell (js ''ich stehe auf'')] =
              Inr (specSeparablePrefix (extractTextFromCell (js ''ich stehe auf'')))"
    and e: "specSeparablePrefix (js ''stehe auf'') = js ''auf''"
    by auto
  have n: "praesens emptyParsed Sg1 = None" by (simp add: emptyParsed_def)
  from a n have a': "separablePrefix emptyParsed = []" by simp
  from c e have c': "detectSeparablePrefix [Sg1 \<mapsto> js ''stehe auf''] = Inr (js ''auf'')"
    by (simp only: cell_stehe_auf)
  from parseConjugations_x a' n b cell_stehe_auf c' show ?thesis by blast
qed

section \<open>The matcher on the rest of the input\<close>

declare execL.simps [simp del]

lemma at_end: "at s (length s) cs = (length s, prevChar s (length s), [], cs)"
  by (simp add: at_def)

lemma at_step:
  "p < length s \<Longrightarrow> at s p cs = (p, prevChar s p, s ! p # drop (Suc p) s, cs)"
  "p < length s \<Longrightarrow> at s (Suc p) cs = (Suc p, Some (s ! p), drop (Suc p) s, cs)"
  by (simp_all add: at_def prevChar_def Cons_nth_drop_Suc)

lemma star_cls:
  assumes kk: "\<And>e cs'. e \<le> length s \<Longrightarrow> kL (at s e cs') = k (e, cs')"
  shows "p \<le> length s \<Longrightarrow> length s - p \<le> n \<Longrightarrow>
           rep g n (matcher (Cls P) s) k (p, cs) =
             (if g then greedyL P kL (at s p cs) else lazyL P kL (at s p cs))"
proof (induction n arbitrary: p)
  case 0
  then have p: "p = length s" by simp
  show ?case unfolding p at_end by (simp add: kk[of "length s" cs, unfolded at_end])
next
  case (Suc n)
  show ?case
  proof (cases "p < length s")
    case False
    with Suc.prems have p: "p = length s" by simp
    show ?thesis unfolding p at_end
      by (simp add: kk[of "length s" cs, unfolded at_end] split: option.splits)
  next
    case True
    then have le: "Suc p \<le> length s" "length s - Suc p \<le> n" using Suc.prems by simp_all
    note ih = Suc.IH[OF le]
    note k0 = kk[of p cs, unfolded at_step(1)[OF True]]
    show ?thesis
      unfolding at_step(1)[OF True]
      using True ih[unfolded at_step(2)[OF True]] k0
      by (cases g) (simp_all split: option.splits)
  qed
qed

lemma matchL_matcher:
  "simple r \<Longrightarrow> p \<le> length s \<Longrightarrow>
     (\<And>e cs'. e \<le> length s \<Longrightarrow> kL (at s e cs') = k (e, cs')) \<Longrightarrow>
     matchL r kL (at s p cs) = matcher r s k (p, cs)"
proof (induction r arbitrary: k kL p cs)
  case Eps
  then show ?case by simp
next
  case (Lit c)
  show ?case
  proof (cases "p < length s")
    case True
    with Lit.prems(3)[of "Suc p" cs] show ?thesis
      by (auto simp: at_step[OF True])
  next
    case False
    with Lit.prems have "p = length s" by simp
    then show ?thesis by (simp add: at_end)
  qed
next
  case (Cls P)
  show ?case
  proof (cases "p < length s")
    case True
    with Cls.prems(3)[of "Suc p" cs] show ?thesis
      by (auto simp: at_step[OF True])
  next
    case False
    with Cls.prems have "p = length s" by simp
    then show ?thesis by (simp add: at_end)
  qed
next
  case (Seq a b)
  have "matchL b kL (at s e cs') = matcher b s k (e, cs')" if "e \<le> length s" for e cs'
    using Seq.prems that by (intro Seq.IH(2)) simp_all
  then have "matchL a (matchL b kL) (at s p cs) = matcher a s (matcher b s k) (p, cs)"
    using Seq.prems by (intro Seq.IH(1)) simp_all
  then show ?case by simp
next
  case (Alt a b)
  have "matchL a kL (at s p cs) = matcher a s k (p, cs)"
    using Alt.prems by (intro Alt.IH(1)) simp_all
  moreover have "matchL b kL (at s p cs) = matcher b s k (p, cs)"
    using Alt.prems by (intro Alt.IH(2)) simp_all
  ultimately show ?case by (simp split: option.splits)
next
  case (Star g r)
  then obtain P where r: "r = Cls P" by (cases r) simp_all
  from star_cls[of s kL k p "length s - p" g P cs, OF Star.prems(3) Star.prems(2)]
  show ?case by (simp add: r)
next
  case (Grp n r)
  have "matchL r (\<lambda>(p', b', xs', cs'). kL (p', b', xs', cs'(n \<mapsto> (p, p')))) (at s p cs) =
        matcher r s (\<lambda>st'. k (fst st', (snd st')(n \<mapsto> (p, fst st')))) (p, cs)"
  proof (intro Grp.IH)
    show "simple r" using Grp.prems by simp
    show "p \<le> length s" by fact
    fix e cs'
    assume e: "e \<le> length s"
    have "kL (at s e (cs'(n \<mapsto> (p, e)))) = k (e, cs'(n \<mapsto> (p, e)))"
      using e by (rule Grp.prems(3))
    then show "(case at s e cs' of (p', b', xs', cs') \<Rightarrow> kL (p', b', xs', cs'(n \<mapsto> (p, p')))) =
          k (fst (e, cs'), (snd (e, cs'))(n \<mapsto> (p, fst (e, cs'))))"
      by (simp add: at_def)
  qed
  then show ?case by (simp add: at_def)
next
  case Bol
  from Bol.prems(3)[OF Bol.prems(2), of cs] show ?case by (auto simp: at_def)
next
  case Eol
  from Eol.prems(3)[OF Eol.prems(2), of cs] Eol.prems(2) show ?case by (auto simp: at_def)
next
  case WordB
  have a: "wordAfter (drop p s) = isWordAt s p"
    by (cases "p < length s") (simp_all add: wordAfter_def isWordAt_def Cons_nth_drop_Suc[symmetric])
  have b: "wordBefore (prevChar s p) = (0 < p \<and> isWordAt s (p - 1))"
    using WordB.prems(2) by (auto simp: wordBefore_def prevChar_def isWordAt_def)
  from WordB.prems(3)[OF WordB.prems(2), of cs] show ?case by (auto simp: at_def a b)
qed

lemma execL_execFrom:
  "simple re \<Longrightarrow> i \<le> length s \<Longrightarrow> execFrom re s i = execL re (i, prevChar s i, drop i s)"
proof (induction "length s - i" arbitrary: i)
  case 0
  then have i: "i = length s" by simp
  have m: "matchL re (\<lambda>(e, b', xs', cs'). Some (e, cs')) (at s (length s) Map.empty) =
           matcher re s Some (length s, Map.empty)"
    using 0(2) by (intro matchL_matcher) (simp_all add: at_def)
  have e: "execFrom re s (Suc (length s)) = None" by (simp add: execFrom_end)
  show ?case unfolding i
    by (cases "matcher re s Some (length s, Map.empty)")
       (auto simp: execFrom_step[of "length s" s] e matchAt_def execL.simps m[unfolded at_end])
next
  case (Suc n)
  then have lt: "i < length s" by simp
  have m: "matchL re (\<lambda>(e, b', xs', cs'). Some (e, cs')) (at s i Map.empty) =
           matcher re s Some (i, Map.empty)"
    using Suc.prems by (intro matchL_matcher) (simp_all add: at_def)
  have ih: "execFrom re s (Suc i) = execL re (Suc i, Some (s ! i), drop (Suc i) s)"
    using Suc.hyps(1)[of "Suc i"] Suc.hyps(2) Suc.prems(1) lt by (simp add: prevChar_def)
  have d: "drop i s = s ! i # drop (Suc i) s" using lt by (simp add: Cons_nth_drop_Suc)
  show ?case
    unfolding d
    by (cases "matcher re s Some (i, Map.empty)")
       (auto simp: execFrom_step[OF Suc.prems(2)] matchAt_def execL.simps ih
          m[unfolded at_step(1)[OF lt]])
qed

lemma matchRe_execL: "simple re \<Longrightarrow> matchRe s re = execL re (0, None, s)"
  using execL_execFrom[of re 0 s] by (simp add: matchRe_def prevChar_def)

section \<open>Parsing the page of gehen\<close>

text \<open>The patterns are run on the page by rewriting with the equations of \<open>execL\<close>.  A
  tense whose label holds a character that the page does not hold has no section.\<close>

declare matchL.simps [simp del] lazyL.simps [simp del] greedyL.simps [simp del]

lemma simple_str: "simple (str w)"
  by (induction w) (auto simp: str_def)

lemma simple_stri: "simple (stri w)"
  by (induction w) (auto simp: stri_def)

lemma simple_patterns:
  "simple h2Re" "simple e \<Longrightarrow> simple (sectionRe l e)" "simple nextSpan" "simple tableEnd"
  "simple rowRe" "simple cellRe" "simple supRe" "simple tagRe" "simple entityRe"
  "simple erSieEsRe" "simple pronounRe" "simple reflexiveRe"
  by (simp_all add: h2Re_def sectionRe_def colspanRe_def nextSpan_def tableEnd_def rowRe_def
      cellRe_def supRe_def tagRe_def entityRe_def erSieEsRe_def pronounRe_def reflexiveRe_def
      reflexiveAlt_def simple_str simple_stri plusRe_def notChar_def dot_def dotAll_def)

lemma slice_numeral:
  "slice (x # xs) (numeral a) (numeral b) = slice xs (pred_numeral a) (pred_numeral b)"
  "slice (x # xs) 1 (numeral b) = slice xs 0 (pred_numeral b)"
  "slice (x # xs) 0 (numeral b) = x # slice xs 0 (pred_numeral b)"
  "slice (x # xs) 0 1 = [x]"
  "slice xs 0 0 = []"
  "slice xs 1 1 = []"
  "slice xs (numeral a) 0 = []"
  "slice xs (numeral a) 1 = []"
  "slice xs 1 0 = []"
  by (simp_all add: slice_def numeral_eq_Suc)

lemma drop_numeral:
  "drop (numeral a) (x # xs) = drop (pred_numeral a) xs"
  "drop 1 (x # xs) = xs"
  by (simp_all add: numeral_eq_Suc)

lemma prevChar_numeral:
  "prevChar (x # xs) (numeral a) = (if pred_numeral a = 0 then Some x else prevChar xs (pred_numeral a))"
  "prevChar (x # xs) 1 = Some x"
  "prevChar xs 0 = None"
  by (auto simp: prevChar_def numeral_eq_Suc nth_Cons split: nat.splits)

lemmas eval_simps = execL.simps matchL.simps lazyL.simps greedyL.simps
  prod.case option.case list.case if_True if_False simp_thms
  rel_simps arith_simps Suc_numeral One_nat_def[symmetric] Suc_1 list.inject list.distinct
  isLineTerminator_def isDigit_def isSpace_def isWordChar_def wordBefore_def wordAfter_def
  slice_numeral drop_numeral prevChar_numeral pred_numeral_simps
  option.inject option.distinct fun_upd_apply group_def snd_conv fst_conv drop_0

lemmas norm_defs = flexMatch_def flexRow_def flexHead_def flexEnd_def gehenCells_def gingCells_def
  gegangenCells_def js_def cellRe_def rowRe_def str_def stri_def dot_def dotAll_def notChar_def
  plusRe_def supRe_def tagRe_def entityRe_def erSieEsRe_def pronounRe_def reflexiveRe_def
  reflexiveAlt_def asciiLower_def trim_def

lemma replaceAll_none:
  assumes "simple re" and "execL re (0, None, s) = None"
  shows "replaceAll s re rp = s"
  using assms execL_execFrom[of re 0 s]
  by (simp add: replaceAll_def replaceFrom.simps[of re rp s 0 0] prevChar_def)

lemma extractTextFromCell_plain:
  assumes "execL supRe (0, None, c) = None" and "execL tagRe (0, None, c) = None"
    and "execL entityRe (0, None, c) = None" and "collapse c = c" and "trim c = c"
    and "execL erSieEsRe (0, None, c) = None" and "execL pronounRe (0, None, c) = None"
    and "execL reflexiveRe (0, None, c) = None" and "splitOn 44 c = [c]" and "c \<noteq> []"
  shows "extractTextFromCell c = c"
  using assms
  by (simp add: extractTextFromCell_def Let_def replaceAll_spaces replaceAll_none simple_patterns)

lemma length_Cons_le:
  "numeral k \<le> length (x # xs) \<longleftrightarrow> pred_numeral k \<le> length xs"
  "1 \<le> length (x # xs)"
  "0 \<le> length xs"
  by (simp_all add: numeral_eq_Suc)

lemma rows_gehen:
  "matchGlobal (10 # concat (map flexRow gehenCells)) rowRe = Some (map flexMatch gehenCells)"
  unfolding matchGlobal_def
  apply (simp add: norm_defs del: fun_upd_apply)
  apply (simp only: eval_simps matchesFrom.simps execL_execFrom length_Cons_le simple.simps
      regex.case cong: if_weak_cong option.case_cong_weak list.case_cong_weak)
  done

lemma anchorFree_sections:
  "anchorFree h2Re" "anchorFree nextSpan" "anchorFree tableEnd"
  "anchorFree e \<Longrightarrow> anchorFree (sectionRe l e)"
  by (simp_all add: h2Re_def sectionRe_def colspanRe_def nextSpan_def tableEnd_def
      anchorFree_str plusRe_def notChar_def dot_def dotAll_def)

lemma set_slice: "set (slice s p e) \<subseteq> set s"
  unfolding slice_def by (meson set_take_subset set_drop_subset subset_trans)

lemma no_match_without:
  assumes "anchorFree re" and "\<And>u. u \<in> lang re \<Longrightarrow> c \<in> set u" and "c \<notin> set s"
  shows "matchRe s re = None"
proof (rule ccontr)
  assume "matchRe s re \<noteq> None"
  then obtain p e cs where "execFrom re s 0 = Some (p, e, cs)"
    by (auto simp: matchRe_def)
  from execFrom_lang[OF assms(1) this] have "slice s p e \<in> lang re" .
  from assms(2)[OF this] set_slice[of s p e] assms(3) show False by auto
qed

lemma no_heading_without_2: "50 \<notin> set s \<Longrightarrow> matchRe s h2Re = None"
  by (rule no_match_without[OF anchorFree_sections(1), of 50])
     (auto simp: h2Re_def lang_str js_def)

lemma no_section_without:
  assumes "anchorFree e" and "c \<in> set l" and "c \<notin> set s"
  shows "matchRe s (sectionRe l e) = None"
  using assms(2)
  by (intro no_match_without[OF anchorFree_sections(4)[OF assms(1)] _ assms(3)])
     (auto simp: sectionRe_def lang_str)

lemma flex_chars:
  "50 \<in> set (flexRow c) \<longleftrightarrow> 50 \<in> set c" "50 \<in> set (flexHead l) \<longleftrightarrow> 50 \<in> set l"
  "113 \<in> set (flexRow c) \<longleftrightarrow> 113 \<in> set c" "113 \<in> set (flexHead l) \<longleftrightarrow> 113 \<in> set l"
  "70 \<in> set (flexRow c) \<longleftrightarrow> 70 \<in> set c" "70 \<in> set (flexHead l) \<longleftrightarrow> 70 \<in> set l"
  "50 \<notin> set flexEnd" "113 \<notin> set flexEnd" "70 \<notin> set flexEnd"
  by (simp_all add: flexRow_def flexMatch_def flexHead_def flexEnd_def js_def)

lemma page_chars:
  "50 \<notin> set gehenPage" "113 \<notin> set gehenPage" "70 \<notin> set gehenPage"
  by (simp_all add: gehenPage_def flex_chars)
     (simp_all add: gehenCells_def gingCells_def gegangenCells_def js_def praesensLabel_def
        praeteritumLabel_def)

lemma praesens_match:
  "matchRe gehenPage (sectionRe praesensLabel nextSpan) = Some (0, 433, [1 \<mapsto> (48, 412)])"
  unfolding matchRe_execL[OF simple_patterns(2)[OF simple_patterns(3)]]
  apply (simp add: norm_defs section_defs gehenPage_def del: fun_upd_apply)
  apply (simp only: eval_simps cong: if_weak_cong option.case_cong_weak)
  done

lemma praesens_group:
  "slice gehenPage 48 412 = 10 # concat (map flexRow gehenCells)"
  apply (simp add: norm_defs section_defs gehenPage_def)
  apply (simp only: eval_simps cong: if_weak_cong option.case_cong_weak)
  done

lemma cellOf_same:
  assumes "(case execL cellRe (0, None, r) of None \<Rightarrow> None | Some m \<Rightarrow> group r m 1) = Some c"
    and "extractTextFromCell c = c"
  shows "cellOf r = Inr c"
  using assms
  by (auto simp: cellOf_def matchRe_execL[OF simple_patterns(6)] split: option.splits)

lemma page_cells:
  "cellOf (flexMatch (js ''gehe'')) = Inr (js ''gehe'')"
  "cellOf (flexMatch (js ''gehst'')) = Inr (js ''gehst'')"
  "cellOf (flexMatch (js ''geht'')) = Inr (js ''geht'')"
  "cellOf (flexMatch (js ''gehen'')) = Inr (js ''gehen'')"
  "cellOf (flexMatch (js ''ging'')) = Inr (js ''ging'')"
  "cellOf (flexMatch (js ''gingst'')) = Inr (js ''gingst'')"
  "cellOf (flexMatch (js ''gingen'')) = Inr (js ''gingen'')"
  "cellOf (flexMatch (js ''gingt'')) = Inr (js ''gingt'')"
  "cellOf (flexMatch (js ''bin gegangen'')) = Inr (js ''bin gegangen'')"
  "cellOf (flexMatch (js ''bist gegangen'')) = Inr (js ''bist gegangen'')"
  "cellOf (flexMatch (js ''ist gegangen'')) = Inr (js ''ist gegangen'')"
  "cellOf (flexMatch (js ''sind gegangen'')) = Inr (js ''sind gegangen'')"
  "cellOf (flexMatch (js ''seid gegangen'')) = Inr (js ''seid gegangen'')"
  by (rule cellOf_same; (rule extractTextFromCell_plain)?;
       (simp add: norm_defs del: fun_upd_apply)?;
       (simp only: eval_simps cong: if_weak_cong option.case_cong_weak)?;
       (simp add: norm_defs del: fun_upd_apply)?;
       (simp only: eval_simps cong: if_weak_cong option.case_cong_weak)?)+

lemma rows_ging:
  "matchGlobal (10 # concat (map flexRow gingCells)) rowRe = Some (map flexMatch gingCells)"
  unfolding matchGlobal_def
  apply (simp add: norm_defs del: fun_upd_apply)
  apply (simp only: eval_simps matchesFrom.simps execL_execFrom length_Cons_le simple.simps
      regex.case cong: if_weak_cong option.case_cong_weak list.case_cong_weak)
  done

lemma rows_gegangen:
  "matchGlobal (10 # concat (map flexRow gegangenCells)) rowRe = Some (map flexMatch gegangenCells)"
  unfolding matchGlobal_def
  apply (simp add: norm_defs del: fun_upd_apply)
  apply (simp only: eval_simps matchesFrom.simps execL_execFrom length_Cons_le simple.simps
      regex.case cong: if_weak_cong option.case_cong_weak list.case_cong_weak)
  done

lemma page_rows:
  "parseConjugationRows (Some (map flexMatch gehenCells)) = Inr (formsOf gehenCells)"
  "parseConjugationRows (Some (map flexMatch gingCells)) = Inr (formsOf gingCells)"
  "parseConjugationRows (Some (map flexMatch gegangenCells)) = Inr (formsOf gegangenCells)"
  by (simp_all add: parseConjugationRows_def gehenCells_def gingCells_def gegangenCells_def
      page_cells thenE_def formsOf_def)

lemma page_forms:
  "hasAllForms (formsOf gehenCells)" "hasAllForms (formsOf gingCells)"
  "hasAllForms (formsOf gegangenCells)"
  by (simp_all add: hasAllForms_def requiredForms_def formsOf_def gehenCells_def gingCells_def
      gegangenCells_def js_def trim_def isSpace_def)

lemma page_sg1:
  "formsOf gehenCells Sg1 = Some (js ''gehe'')"
  "detectSeparablePrefix (formsOf gehenCells) = Inr []"
  "noPrefixDetected (formsOf gehenCells)"
  by (simp_all add: formsOf_def gehenCells_def detectSeparablePrefix_def noPrefixDetected_def
      js_def trim_def isSpace_def includesChar_def)

lemma praeteritum_match:
  "matchRe gehenPage (sectionRe praeteritumLabel nextSpan) = Some (0, 892, [1 \<mapsto> (503, 871)])"
  unfolding matchRe_execL[OF simple_patterns(2)[OF simple_patterns(3)]]
  apply (simp add: norm_defs section_defs gehenPage_def del: fun_upd_apply)
  apply (simp only: eval_simps cong: if_weak_cong option.case_cong_weak)
  done

lemma praeteritum_group:
  "slice gehenPage 503 871 = 10 # concat (map flexRow gingCells)"
  apply (simp add: norm_defs section_defs gehenPage_def)
  apply (simp only: eval_simps cong: if_weak_cong option.case_cong_weak)
  done

lemma perfekt_match:
  "matchRe gehenPage (sectionRe (js ''Perfekt'') nextSpan) = Some (0, 1393, [1 \<mapsto> (959, 1372)])"
  unfolding matchRe_execL[OF simple_patterns(2)[OF simple_patterns(3)]]
  apply (simp add: norm_defs section_defs gehenPage_def del: fun_upd_apply)
  apply (simp only: eval_simps cong: if_weak_cong option.case_cong_weak)
  done

lemma perfekt_group:
  "slice gehenPage 959 1372 = 10 # concat (map flexRow gegangenCells)"
  apply (simp add: norm_defs section_defs gehenPage_def)
  apply (simp only: eval_simps cong: if_weak_cong option.case_cong_weak)
  done

lemma page_sections:
  "parseSection gehenPage (sectionRe praesensLabel nextSpan) = Inr (formsOf gehenCells)"
  "parseSection gehenPage (sectionRe praeteritumLabel nextSpan) = Inr (formsOf gingCells)"
  "parseSection gehenPage (sectionRe (js ''Perfekt'') nextSpan) = Inr (formsOf gegangenCells)"
  by (simp_all add: parseSection_def praesens_match praeteritum_match perfekt_match group_def
      praesens_group praeteritum_group perfekt_group rows_gehen rows_ging rows_gegangen page_rows)

lemma page_without:
  "parseInfinitive gehenPage = Inr []"
  "parseSection gehenPage (sectionRe (js ''Plusquamperfekt'') tableEnd) = Inr Map.empty"
  "parseSection gehenPage (sectionRe (js ''Futur I'') nextSpan) = Inr Map.empty"
  "parseSection gehenPage (sectionRe (js ''Futur II'') tableEnd) = Inr Map.empty"
proof -
  show "parseInfinitive gehenPage = Inr []"
    by (simp add: parseInfinitive_def no_heading_without_2[OF page_chars(1)])
  have "matchRe gehenPage (sectionRe (js ''Plusquamperfekt'') tableEnd) = None"
    by (rule no_section_without[OF anchorFree_sections(3) _ page_chars(2)]) (simp add: js_def)
  then show "parseSection gehenPage (sectionRe (js ''Plusquamperfekt'') tableEnd) = Inr Map.empty"
    by (simp add: parseSection_def)
  have "matchRe gehenPage (sectionRe (js ''Futur I'') nextSpan) = None"
    by (rule no_section_without[OF anchorFree_sections(2) _ page_chars(3)]) (simp add: js_def)
  then show "parseSection gehenPage (sectionRe (js ''Futur I'') nextSpan) = Inr Map.empty"
    by (simp add: parseSection_def)
  have "matchRe gehenPage (sectionRe (js ''Futur II'') tableEnd) = None"
    by (rule no_section_without[OF anchorFree_sections(3) _ page_chars(3)]) (simp add: js_def)
  then show "parseSection gehenPage (sectionRe (js ''Futur II'') tableEnd) = Inr Map.empty"
    by (simp add: parseSection_def)
qed

lemma gehenPage_parsed: "parseConjugations (Some gehenPage) = Inr (Some gehenParsed)"
proof -
  have "gehenPage \<noteq> []" by (simp add: gehenPage_def flexHead_def js_def)
  then show ?thesis
    by (simp add: parseConjugations_def page_sections page_without page_sg1 thenE_def
        gehenParsed_def)
qed

section \<open>The empty separable prefix\<close>

lemma freue_mich:
  "noPrefixDetected [Sg1 \<mapsto> js ''freue mich'']"
  by (simp add: noPrefixDetected_def test_reflexive isReflexivePronoun_def js_def trim_def
      isSpace_def includesChar_def asciiLower_def)

text \<open>
  Claim C10.  When no separable prefix is detected in a parsed verb, its
  \<open>separablePrefix\<close> is the empty string; the object given to \<open>insertVerb\<close> carries that
  empty string and not \<open>null\<close>; the row of the verb holds it whenever the verb is written,
  and the verb is written when its three required tenses are complete.  For every slot
  set in which no prefix is detected, whether a page gives it or not, the detection
  yields the empty string.
\<close>

theorem no_prefix_is_empty_string:
  assumes "parseConjugations raw = Inr (Some pv)" and "noPrefixDetected (praesens pv)"
  shows "separablePrefix pv = [] \<and>
         a_separablePrefix (verbArgs name pv) = Some [] \<and>
         (\<forall>d d'. storeVerb d name pv = (Written, d') \<longrightarrow> storedPrefixes d' name = [Some []]) \<and>
         (\<forall>d. foreignKeysHold d \<and> hasAllForms (praesens pv) \<and> hasAllForms (praeteritum pv) \<and>
              hasAllForms (perfekt pv) \<longrightarrow>
              (\<exists>d'. storeVerb d name pv = (Written, d') \<and>
                    storedPrefixes d' name = [Some []])) \<and>
         (noPrefixDetected pr \<longrightarrow> detectSeparablePrefix pr = Inr [])"
proof -
  from parseConjugations_Some[OF assms(1)]
  have "detectSeparablePrefix (praesens pv) = Inr (separablePrefix pv)" by blast
  from detect_none[OF this assms(2)] have e: "separablePrefix pv = []" .
  have w: "\<exists>d'. storeVerb d name pv = (Written, d') \<and> storedPrefixes d' name = [Some []]"
    if "foreignKeysHold d" "hasAllForms (praesens pv)" "hasAllForms (praeteritum pv)"
      "hasAllForms (perfekt pv)" for d
    using storeVerb_accepts[OF that, of name] e by auto
  have g: "detectSeparablePrefix pr = Inr []" if "noPrefixDetected pr"
  proof -
    obtain sp where sp: "detectSeparablePrefix pr = Inr sp"
      using detectSeparablePrefix_total by blast
    from detect_none[OF sp that] sp show ?thesis by simp
  qed
  from e w g storeVerb_prefix[of _ name pv] show ?thesis
    by (simp add: verbArgs_def)
qed

theorem no_prefix_is_empty_string_witness:
  "parseConjugations (Some gehenPage) = Inr (Some gehenParsed) \<and>
   praesens gehenParsed Sg1 = Some (js ''gehe'') \<and>
   noPrefixDetected (praesens gehenParsed) \<and>
   separablePrefix gehenParsed = [] \<and>
   a_separablePrefix (verbArgs (js ''gehen'') gehenParsed) = Some [] \<and>
   fst (storeVerb emptyDb (js ''gehen'') gehenParsed) = Written \<and>
   storedPrefixes (snd (storeVerb emptyDb (js ''gehen'') gehenParsed)) (js ''gehen'') = [Some []] \<and>
   noPrefixDetected [Sg1 \<mapsto> js ''freue mich''] \<and>
   detectSeparablePrefix [Sg1 \<mapsto> js ''freue mich''] = Inr []"
proof -
  have p: "praesens gehenParsed = formsOf gehenCells"
    "praeteritum gehenParsed = formsOf gingCells" "perfekt gehenParsed = formsOf gegangenCells"
    by (simp_all add: gehenParsed_def)
  have n: "noPrefixDetected (praesens gehenParsed)" by (simp add: p page_sg1)
  have c: "foreignKeysHold emptyDb \<and> hasAllForms (praesens gehenParsed) \<and>
           hasAllForms (praeteritum gehenParsed) \<and> hasAllForms (perfekt gehenParsed)"
    by (simp add: p page_forms foreignKeysHold_emptyDb)
  note t = no_prefix_is_empty_string[OF gehenPage_parsed n,
      of "js ''gehen''" "[Sg1 \<mapsto> js ''freue mich'']"]
  from t c obtain d' where
    d: "storeVerb emptyDb (js ''gehen'') gehenParsed = (Written, d')"
       "storedPrefixes d' (js ''gehen'') = [Some []]"
    by blast
  from t freue_mich have f: "detectSeparablePrefix [Sg1 \<mapsto> js ''freue mich''] = Inr []"
    by blast
  from t have a: "separablePrefix gehenParsed = []"
    "a_separablePrefix (verbArgs (js ''gehen'') gehenParsed) = Some []"
    by blast+
  from gehenPage_parsed n a d f freue_mich show ?thesis
    by (simp add: p page_sg1)
qed

end
